theory Spec2Isabelle
  imports Complex_Main "HOL-Library.Sublist"
begin

section \<open>Contract analysis pipeline: the rule-based stages of main.py\<close>

text \<open>
  The stages of \<^verbatim>\<open>main.py\<close> that compute on text are embedded here: language
  normalisation, contract classification, clause splitting, entity extraction and
  risk scoring, with the aggregation of clause risks that the UI code performs.

  A Python \<^verbatim>\<open>str\<close> is a sequence of Unicode code points, so a text is a list of
  natural numbers. Literals of the source are written through \<open>str\<close>, which maps
  an ASCII literal to its code points.
\<close>

type_synonym ustr = "nat list"

definition str :: "string \<Rightarrow> ustr" where
  "str s = map of_char s"

subsection \<open>Unicode tables\<close>

text \<open>
  The classes \<^verbatim>\<open>\s\<close>, \<^verbatim>\<open>\d\<close>, \<^verbatim>\<open>\w\<close> of the \<^verbatim>\<open>re\<close> module and the methods
  \<^verbatim>\<open>str.strip\<close> and \<^verbatim>\<open>str.lower\<close> read the Unicode character database of the
  interpreter, which is no part of the program. The tables are a parameter of every
  function that uses them: \<open>isspace\<close> (white space, for \<^verbatim>\<open>\s\<close> and \<^verbatim>\<open>strip()\<close>),
  \<open>isdecimal\<close> (decimal digits, for \<^verbatim>\<open>\d\<close>), \<open>isalnum\<close> (alphanumerics, for \<^verbatim>\<open>\w\<close>
  and so \<^verbatim>\<open>\b\<close>) and \<open>lower\<close> (lower-casing of a whole string).
\<close>

record tables =
  isspace :: "nat \<Rightarrow> bool"
  isdecimal :: "nat \<Rightarrow> bool"
  isalnum :: "nat \<Rightarrow> bool"
  lower :: "ustr \<Rightarrow> ustr"

text \<open>
  The tables on the ASCII range (code points below 128), where they are: white space is
  \<^verbatim>\<open>\t \n \v \f \r\<close>, the separators 28 to 31 and the blank; the digits are 0 to 9; lower
  adds 32 to the letters A to Z. Concrete texts are evaluated with these tables; every
  evaluated text is ASCII.
\<close>

definition ascii :: tables where
  "ascii = \<lparr>isspace = (\<lambda>c. (9 \<le> c \<and> c \<le> 13) \<or> (28 \<le> c \<and> c \<le> 32)),
            isdecimal = (\<lambda>c. 48 \<le> c \<and> c \<le> 57),
            isalnum = (\<lambda>c. (48 \<le> c \<and> c \<le> 57) \<or> (65 \<le> c \<and> c \<le> 90) \<or> (97 \<le> c \<and> c \<le> 122)),
            lower = map (\<lambda>c. if 65 \<le> c \<and> c \<le> 90 then c + 32 else c)\<rparr>"

subsection \<open>Regular expressions as the re module matches them\<close>

text \<open>
  A pattern is a syntax tree. \<open>Set\<close> is a bracket expression (or a single character or
  class): one character that belongs to one of the atoms. \<open>Rep lo hi r\<close> is the greedy
  repetition \<^verbatim>\<open>r{lo,hi}\<close>, with \<open>None\<close> for no upper bound, so \<^verbatim>\<open>r+\<close> is
  \<open>Rep 1 None r\<close>, \<^verbatim>\<open>r*\<close> is \<open>Rep 0 None r\<close> and \<^verbatim>\<open>r?\<close> is \<open>Rep 0 (Some 1) r\<close>.
  \<open>Grp\<close> is a capturing group, \<open>Bol\<close> is \<^verbatim>\<open>^\<close> (without MULTILINE: the start of the
  string), \<open>Wordb\<close> is \<^verbatim>\<open>\b\<close>. No pattern of the program has more than one capturing
  group, so a match carries one capture.
\<close>

datatype atom = Ch char | Cp nat | Rng char char | Digit | Space

fun atom_ok :: "tables \<Rightarrow> atom \<Rightarrow> nat \<Rightarrow> bool" where
  "atom_ok U (Ch c) x = (x = of_char c)"
| "atom_ok U (Cp n) x = (x = n)"
| "atom_ok U (Rng a b) x = (of_char a \<le> x \<and> x \<le> of_char b)"
| "atom_ok U Digit x = isdecimal U x"
| "atom_ok U Space x = isspace U x"

datatype re = Set "atom list" | Seq re re | Alt re re | Rep nat "nat option" re
  | Grp re | Bol | Wordb | Eps

text \<open>
  The matcher is the backtracking search of \<^verbatim>\<open>re\<close>, written as a list of successes: a
  state is the character before the current position (\<open>None\<close> at the start of the
  string), the rest of the string and the capture; \<open>m U r st\<close> lists the states in which
  a match of \<open>r\<close> from \<open>st\<close> can end, in the order in which backtracking tries them. The
  first element is the match that \<^verbatim>\<open>re\<close> reports. A greedy repetition tries one more
  round before it tries to stop; a round that consumes nothing is not repeated.
\<close>

type_synonym mstate = "nat option \<times> ustr \<times> ustr option"

function rep :: "(mstate \<Rightarrow> mstate list) \<Rightarrow> nat \<Rightarrow> nat option \<Rightarrow> mstate \<Rightarrow> mstate list" where
  "rep f lo hi st =
     (if hi = Some 0 then [st]
      else concat (map (rep f (lo - 1) (map_option (\<lambda>h. h - 1) hi))
                    (filter (\<lambda>st'. length (fst (snd st')) < length (fst (snd st))) (f st)))
           @ (if lo = 0 then [st] else []))"
  by pat_completeness auto
termination
  by (relation "measure (\<lambda>(f, lo, hi, st). length (fst (snd st)))") auto

declare rep.simps [simp del]

definition is_word :: "tables \<Rightarrow> nat option \<Rightarrow> bool" where
  "is_word U c = (case c of None \<Rightarrow> False | Some x \<Rightarrow> isalnum U x \<or> x = of_char CHR ''_'')"

primrec m :: "tables \<Rightarrow> re \<Rightarrow> mstate \<Rightarrow> mstate list" where
  "m U (Set as) = (\<lambda>(p, s, g). case s of [] \<Rightarrow> []
       | c # cs \<Rightarrow> if list_ex (\<lambda>a. atom_ok U a c) as then [(Some c, cs, g)] else [])"
| "m U (Seq a b) = (\<lambda>st. concat (map (m U b) (m U a st)))"
| "m U (Alt a b) = (\<lambda>st. m U a st @ m U b st)"
| "m U (Rep lo hi r) = rep (m U r) lo hi"
| "m U (Grp r) = (\<lambda>(p, s, g).
       map (\<lambda>(p', s', g'). (p', s', Some (take (length s - length s') s))) (m U r (p, s, g)))"
| "m U Bol = (\<lambda>(p, s, g). if p = None then [(p, s, g)] else [])"
| "m U Wordb = (\<lambda>(p, s, g).
       if is_word U p \<noteq> is_word U (case s of [] \<Rightarrow> None | c # _ \<Rightarrow> Some c)
       then [(p, s, g)] else [])"
| "m U Eps = (\<lambda>st. [st])"

text \<open>A literal word of a pattern is the sequence of its characters.\<close>

fun lit :: "string \<Rightarrow> re" where
  "lit [] = Eps"
| "lit (c # cs) = Seq (Set [Ch c]) (lit cs)"

primrec has_grp :: "re \<Rightarrow> bool" where
  "has_grp (Set as) = False"
| "has_grp (Seq a b) = (has_grp a \<or> has_grp b)"
| "has_grp (Alt a b) = (has_grp a \<or> has_grp b)"
| "has_grp (Rep lo hi r) = has_grp r"
| "has_grp (Grp r) = True"
| "has_grp Bol = False"
| "has_grp Wordb = False"
| "has_grp Eps = False"

text \<open>
  \<open>match_at\<close> is a match attempt at one position: the matched text and the capture of
  the first success. \<open>re_search\<close> is \<^verbatim>\<open>re.search\<close>: the attempt at the leftmost position
  that has one.
\<close>

definition match_at :: "tables \<Rightarrow> re \<Rightarrow> nat option \<Rightarrow> ustr \<Rightarrow> (ustr \<times> ustr option) option" where
  "match_at U r p s =
     (case m U r (p, s, None) of [] \<Rightarrow> None
      | (p', s', g) # _ \<Rightarrow> Some (take (length s - length s') s, g))"

fun re_search :: "tables \<Rightarrow> re \<Rightarrow> nat option \<Rightarrow> ustr \<Rightarrow> (ustr \<times> ustr option) option" where
  "re_search U r p [] = match_at U r p []"
| "re_search U r p (c # cs) =
     (case match_at U r p (c # cs) of Some x \<Rightarrow> Some x | None \<Rightarrow> re_search U r (Some c) cs)"

text \<open>
  \<open>scan\<close> is the loop that \<^verbatim>\<open>re.sub\<close>, \<^verbatim>\<open>re.split\<close> and \<^verbatim>\<open>re.findall\<close> share: it walks the
  string from left to right and cuts it into the characters outside every match and the
  non-overlapping matches, each with its capture. \<open>k\<close> counts the characters of the
  current match that are still to be skipped. No pattern of the program matches the
  empty string; after an empty match the scan goes on with the next character.
\<close>

datatype tok = Plain nat | Match ustr "ustr option"

fun scan :: "tables \<Rightarrow> re \<Rightarrow> nat \<Rightarrow> nat option \<Rightarrow> ustr \<Rightarrow> tok list" where
  "scan U r k p [] =
     (if k = 0 then (case match_at U r p [] of None \<Rightarrow> [] | Some (mt, g) \<Rightarrow> [Match mt g])
      else [])"
| "scan U r (Suc k) p (c # cs) = scan U r k (Some c) cs"
| "scan U r 0 p (c # cs) =
     (case match_at U r p (c # cs) of
        None \<Rightarrow> Plain c # scan U r 0 (Some c) cs
      | Some (mt, g) \<Rightarrow> Match mt g #
          (if mt = [] then Plain c # scan U r 0 (Some c) cs
           else scan U r (length mt - 1) (Some c) cs))"

text \<open>\<^verbatim>\<open>re.sub(r, repl, s)\<close> for a replacement without group references.\<close>

definition re_sub :: "tables \<Rightarrow> re \<Rightarrow> ustr \<Rightarrow> ustr \<Rightarrow> ustr" where
  "re_sub U r repl s =
     concat (map (\<lambda>t. case t of Plain c \<Rightarrow> [c] | Match mt g \<Rightarrow> repl) (scan U r 0 None s))"

text \<open>
  \<^verbatim>\<open>r.split(s)\<close>: the pieces between the matches and, for a pattern with a capturing
  group, the capture of each match after the piece before it. A group that took no part
  in its match gives Python's \<^verbatim>\<open>None\<close>, so the elements are options.
\<close>

fun split_toks :: "bool \<Rightarrow> ustr \<Rightarrow> tok list \<Rightarrow> ustr option list" where
  "split_toks grp acc [] = [Some (rev acc)]"
| "split_toks grp acc (Plain c # ts) = split_toks grp (c # acc) ts"
| "split_toks grp acc (Match mt g # ts) =
     Some (rev acc) # (if grp then [g] else []) @ split_toks grp [] ts"

definition re_split :: "tables \<Rightarrow> re \<Rightarrow> ustr \<Rightarrow> ustr option list" where
  "re_split U r s = split_toks (has_grp r) [] (scan U r 0 None s)"

text \<open>
  \<^verbatim>\<open>re.findall(r, s)\<close>: for a pattern without a group the matched texts; for a pattern
  with one group the captures, the empty string for a group that took no part.
\<close>

fun findall_toks :: "bool \<Rightarrow> tok list \<Rightarrow> ustr list" where
  "findall_toks grp [] = []"
| "findall_toks grp (Plain c # ts) = findall_toks grp ts"
| "findall_toks grp (Match mt g # ts) =
     (if grp then (case g of None \<Rightarrow> [] | Some x \<Rightarrow> x) else mt) # findall_toks grp ts"

definition re_findall :: "tables \<Rightarrow> re \<Rightarrow> ustr \<Rightarrow> ustr list" where
  "re_findall U r s = findall_toks (has_grp r) (scan U r 0 None s)"

subsection \<open>Clause splitting\<close>

datatype error = AttributeError | IndexError | ValueError | LangDetectException

record clause =
  title :: ustr
  text' :: ustr

text \<open>\<^verbatim>\<open>s.strip(chars)\<close> and \<^verbatim>\<open>s.strip()\<close>: drop the characters of a class at both ends.\<close>

definition strip_by :: "(nat \<Rightarrow> bool) \<Rightarrow> ustr \<Rightarrow> ustr" where
  "strip_by P s = rev (dropWhile P (rev (dropWhile P s)))"

definition strip :: "tables \<Rightarrow> ustr \<Rightarrow> ustr" where
  "strip U s = strip_by (isspace U) s"

definition strip_chars :: "string \<Rightarrow> ustr \<Rightarrow> ustr" where
  "strip_chars cs s = strip_by (\<lambda>x. x \<in> set (str cs)) s"

text \<open>\<^verbatim>\<open>\s+\<close>\<close>

definition ws :: re where
  "ws = Rep 1 None (Set [Space])"

text \<open>\<^verbatim>\<open>(?:^|\s)(\d+[\.\)]\s*[A-Z][A-Za-z\s]+:)\<close>\<close>

definition heading :: re where
  "heading =
     Seq (Alt Bol (Set [Space]))
      (Grp (Seq (Rep 1 None (Set [Digit]))
           (Seq (Set [Ch CHR ''.'', Ch CHR '')''])
           (Seq (Rep 0 None (Set [Space]))
           (Seq (Set [Rng CHR ''A'' CHR ''Z''])
           (Seq (Rep 1 None (Set [Rng CHR ''A'' CHR ''Z'', Rng CHR ''a'' CHR ''z'', Space]))
                (Set [Ch CHR '':''])))))))"

text \<open>
  The loop \<^verbatim>\<open>for i in range(1, len(parts), 2)\<close> over the list after \<^verbatim>\<open>parts[0]\<close>: it
  reads \<^verbatim>\<open>parts[i]\<close> and \<^verbatim>\<open>parts[i + 1]\<close>, two elements a round. \<^verbatim>\<open>parts[i].strip\<close> on
  \<^verbatim>\<open>None\<close> raises AttributeError, \<^verbatim>\<open>parts[i + 1]\<close> beyond the end raises IndexError.
\<close>

fun clause_loop :: "tables \<Rightarrow> ustr option list \<Rightarrow> error + clause list" where
  "clause_loop U [] = Inr []"
| "clause_loop U (None # ps) = Inl AttributeError"
| "clause_loop U [Some h] = Inl IndexError"
| "clause_loop U (Some h # None # ps) = Inl AttributeError"
| "clause_loop U (Some h # Some b # ps) =
     (case clause_loop U ps of
        Inl e \<Rightarrow> Inl e
      | Inr cs \<Rightarrow> Inr (\<lparr>title = strip_chars '': '' h, text' = strip U b\<rparr> # cs))"

definition extract_clauses :: "tables \<Rightarrow> ustr \<Rightarrow> error + clause list" where
  "extract_clauses U text0 =
     (let text = re_sub U ws (str '' '') text0;
          parts = re_split U heading text
      in case clause_loop U (drop 1 parts) of
           Inl e \<Rightarrow> Inl e
         | Inr clauses \<Rightarrow>
             Inr (if clauses = [] then [\<lparr>title = str ''General Clause'', text' = text\<rparr>]
                  else clauses))"

text \<open>
  The specification's wording of the first step, ``collapse all whitespace runs to single
  spaces'', as a function of its own: a white-space character and the run after it become
  one blank (code point 32).
\<close>

function collapse :: "tables \<Rightarrow> ustr \<Rightarrow> ustr" where
  "collapse U [] = []"
| "collapse U (c # cs) =
     (if isspace U c then 32 # collapse U (dropWhile (isspace U) cs) else c # collapse U cs)"
  by pat_completeness auto
termination
  by (relation "measure (\<lambda>(U, s). length s)") (auto simp: length_dropWhile_le less_Suc_eq_le)

subsection \<open>Language normalisation\<close>

text \<open>
  \<^verbatim>\<open>detect\<close> is the function of the langdetect package, no part of the program. Its
  outcome on the text, a language code or an exception, is the first argument. The bare
  \<^verbatim>\<open>except:\<close> catches every exception; the result is a sum so that a raise would show.
\<close>

record document =
  language :: ustr
  normalized :: ustr

definition normalize_language :: "error + ustr \<Rightarrow> ustr \<Rightarrow> error + document" where
  "normalize_language detected text0 =
     (let lang = (case detected of Inl e \<Rightarrow> str ''unknown'' | Inr code \<Rightarrow> code)
      in Inr \<lparr>language = (if lang = str ''hi'' then str ''Hindi'' else str ''English''),
              normalized = text0\<rparr>)"

subsection \<open>Substring test\<close>

text \<open>\<^verbatim>\<open>k in s\<close> on strings: \<open>k\<close> occurs in \<open>s\<close> as a contiguous substring.\<close>

fun starts_with :: "ustr \<Rightarrow> ustr \<Rightarrow> bool" where
  "starts_with [] s = True"
| "starts_with (a # k) [] = False"
| "starts_with (a # k) (c # s) = (a = c \<and> starts_with k s)"

fun isin :: "ustr \<Rightarrow> ustr \<Rightarrow> bool" where
  "isin k [] = (k = [])"
| "isin k (c # s) = (starts_with k (c # s) \<or> isin k s)"

subsection \<open>Contract classification\<close>

text \<open>
  The dictionary \<^verbatim>\<open>rules\<close> in its insertion order, which is the order in which Python
  iterates over it and over \<^verbatim>\<open>scores\<close>, the dictionary built from it.
\<close>

definition rules :: "(string \<times> string list) list" where
  "rules =
     [(''Employment Agreement'', [''employee'', ''employer'', ''salary'', ''termination'']),
      (''Lease Agreement'', [''rent'', ''tenant'', ''lease'']),
      (''Vendor / Service Agreement'', [''vendor'', ''service'', ''fees'']),
      (''Partnership Deed'', [''partner'', ''profit sharing''])]"

text \<open>\<^verbatim>\<open>{k: sum(w in t for w in v) for k, v in rules.items()}\<close>\<close>

definition type_scores :: "ustr \<Rightarrow> (string \<times> int) list" where
  "type_scores t = map (\<lambda>(k, v). (k, int (length (filter (\<lambda>w. isin (str w) t) v)))) rules"

text \<open>
  \<^verbatim>\<open>max(xs, key=f)\<close>: the first element of \<open>xs\<close> with the greatest key; the running best
  is replaced only by an element with a strictly greater key. On an empty sequence
  \<^verbatim>\<open>max\<close> raises ValueError.
\<close>

definition py_max :: "('a \<Rightarrow> int) \<Rightarrow> 'a list \<Rightarrow> error + 'a" where
  "py_max f xs =
     (case xs of [] \<Rightarrow> Inl ValueError
      | x # ys \<Rightarrow> Inr (foldl (\<lambda>b y. if f b < f y then y else b) x ys))"

text \<open>
  \<^verbatim>\<open>round(x, 2)\<close> rounds to the nearest multiple of 1/100 and, when \<open>x\<close> is half-way
  between two, to the one with an even last digit. The quotient and the confidence are
  Python floats; they are modelled by the rational numbers they approximate. The
  quotient has a numerator of at most 4 and a denominator of at most 13, so it is
  half-way between two multiples of 1/100 only when the denominator is 8, and then the
  float is exact.
\<close>

definition round_half_even :: "rat \<Rightarrow> int" where
  "round_half_even x =
     (let f = \<lfloor>x\<rfloor>; d = x - of_int f
      in if d < 1 / 2 then f else if 1 / 2 < d then f + 1 else if even f then f else f + 1)"

definition py_round2 :: "rat \<Rightarrow> rat" where
  "py_round2 x = of_int (round_half_even (x * 100)) / 100"

text \<open>
  \<^verbatim>\<open>max(scores, key=scores.get)\<close> iterates over the keys and compares their values; on the
  list of the items this is the first item with the greatest value. \<^verbatim>\<open>scores[best]\<close> is
  the value of that item.
\<close>

definition classify_contract :: "tables \<Rightarrow> ustr \<Rightarrow> error + (ustr \<times> rat)" where
  "classify_contract U text0 =
     (let t = lower U text0;
          scores = type_scores t
      in case py_max snd scores of
           Inl e \<Rightarrow> Inl e
         | Inr best \<Rightarrow>
             Inr (str (fst best),
                  py_round2 (of_int (snd best) / of_int (sum_list (map snd scores) + 1))))"

subsection \<open>Entity extraction\<close>

text \<open>An alternation of literal words.\<close>

fun alts :: "string list \<Rightarrow> re" where
  "alts [] = Eps"
| "alts [w] = lit w"
| "alts (w # rest) = Alt (lit w) (alts rest)"

text \<open>\<^verbatim>\<open>(Employer|Employee|Company|Vendor|Client)\s+[A-Z][A-Za-z &]+\<close>\<close>

definition parties_re :: re where
  "parties_re =
     Seq (Grp (alts [''Employer'', ''Employee'', ''Company'', ''Vendor'', ''Client'']))
      (Seq (Rep 1 None (Set [Space]))
      (Seq (Set [Rng CHR ''A'' CHR ''Z''])
           (Rep 1 None (Set [Rng CHR ''A'' CHR ''Z'', Rng CHR ''a'' CHR ''z'',
                             Ch CHR '' '', Ch CHR ''&'']))))"

text \<open>\<^verbatim>\<open>\b\d{1,2}[/-]\d{1,2}[/-]\d{2,4}\b\<close>\<close>

definition dates_re :: re where
  "dates_re =
     Seq Wordb
      (Seq (Rep 1 (Some 2) (Set [Digit]))
      (Seq (Set [Ch CHR ''/'', Ch CHR ''-''])
      (Seq (Rep 1 (Some 2) (Set [Digit]))
      (Seq (Set [Ch CHR ''/'', Ch CHR ''-''])
      (Seq (Rep 2 (Some 4) (Set [Digit]))
           Wordb)))))"

text \<open>
  \<^verbatim>\<open>(R|\$|Rs\.?)\s?\d+(?:,\d+)*(?:\.\d+)?\<close>, where \<^verbatim>\<open>R\<close> stands for the rupee sign of
  the source, the code point 8377 (U+20B9).
\<close>

definition amounts_re :: re where
  "amounts_re =
     Seq (Grp (Alt (Set [Cp 8377])
              (Alt (Set [Ch CHR ''$''])
                   (Seq (lit ''Rs'') (Rep 0 (Some 1) (Set [Ch CHR ''.'']))))))
      (Seq (Rep 0 (Some 1) (Set [Space]))
      (Seq (Rep 1 None (Set [Digit]))
      (Seq (Rep 0 None (Seq (Set [Ch CHR '','']) (Rep 1 None (Set [Digit]))))
           (Rep 0 (Some 1) (Seq (Set [Ch CHR ''.'']) (Rep 1 None (Set [Digit])))))))"

text \<open>\<^verbatim>\<open>(India|Tamil Nadu|Delhi|Mumbai|Chennai)\<close>\<close>

definition jurisdiction_re :: re where
  "jurisdiction_re = Grp (alts [''India'', ''Tamil Nadu'', ''Delhi'', ''Mumbai'', ''Chennai''])"

text \<open>
  \<^verbatim>\<open>list(set(re.findall(...)))\<close> is a list without duplicates in an order that the
  language leaves open: a set.
\<close>

record entities =
  Parties :: "ustr set"
  Dates :: "ustr set"
  Amounts :: "ustr set"
  Jurisdiction :: "ustr set"

definition extract_entities :: "tables \<Rightarrow> ustr \<Rightarrow> entities" where
  "extract_entities U text0 =
     \<lparr>Parties = set (re_findall U parties_re text0),
      Dates = set (re_findall U dates_re text0),
      Amounts = set (re_findall U amounts_re text0),
      Jurisdiction = set (re_findall U jurisdiction_re text0)\<rparr>"

subsection \<open>Risk rules\<close>

text \<open>The dictionary \<^verbatim>\<open>RISK_RULES\<close>, keyword and weight.\<close>

definition RISK_RULES :: "(string \<times> int) list" where
  "RISK_RULES =
     [(''penalty'', 3), (''indemnify'', 4), (''terminate at any time'', 4),
      (''without notice'', 3), (''non compete'', 4), (''auto renew'', 3),
      (''arbitration'', 2), (''jurisdiction'', 2)]"

text \<open>\<^verbatim>\<open>sum(v for k, v in RISK_RULES.items() if k in text.lower())\<close>\<close>

definition risk_score :: "tables \<Rightarrow> ustr \<Rightarrow> int" where
  "risk_score U text0 =
     sum_list (map snd (filter (\<lambda>(k, v). isin (str k) (lower U text0)) RISK_RULES))"

subsection \<open>Risk tiers and their aggregation\<close>

text \<open>
  \<^verbatim>\<open>risk_analysis\<close> returns one of the three strings "High", "Medium", "Low"; they are
  the constructors of an enumeration. \<open>tier_rank\<close> is the order Low < Medium < High.
\<close>

datatype tier = Low | Medium | High

fun tier_rank :: "tier \<Rightarrow> nat" where
  "tier_rank Low = 0"
| "tier_rank Medium = 1"
| "tier_rank High = 2"

text \<open>
  \<^verbatim>\<open>risk_analysis\<close>: the thresholds 7 and 4 on the score.
\<close>

definition risk_analysis :: "tables \<Rightarrow> ustr \<Rightarrow> tier" where
  "risk_analysis U text0 =
     (let score = risk_score U text0
      in if score \<ge> 7 then High else if score \<ge> 4 then Medium else Low)"

text \<open>
  The aggregation in the UI code, over the list \<^verbatim>\<open>risks\<close> of the clause tiers:
  \<^verbatim>\<open>overall = "High" if "High" in risks else "Medium" if "Medium" in risks else "Low"\<close>
\<close>

definition overall :: "tier list \<Rightarrow> tier" where
  "overall risks =
     (if High \<in> set risks then High else if Medium \<in> set risks then Medium else Low)"

subsection \<open>Auxiliary notions for the statements\<close>

text \<open>A token carries a capture: every match token has a group that took part.\<close>

fun tok_grp :: "tok \<Rightarrow> bool" where
  "tok_grp (Plain c) = True"
| "tok_grp (Match mt g) = (g \<noteq> None)"

text \<open>The stretch of the scanned string that a token stands for.\<close>

fun tok_text :: "tok \<Rightarrow> ustr" where
  "tok_text (Plain c) = [c]"
| "tok_text (Match mt g) = mt"

text \<open>A token outside every match.\<close>

fun is_plain :: "tok \<Rightarrow> bool" where
  "is_plain (Plain c) = True"
| "is_plain (Match mt g) = False"

text \<open>A match token of \<^verbatim>\<open>\s+\<close>: a non-empty run of white space.\<close>

fun tok_ws :: "tables \<Rightarrow> tok \<Rightarrow> bool" where
  "tok_ws U (Plain c) = True"
| "tok_ws U (Match mt g) = (mt \<noteq> [] \<and> (\<forall>c\<in>set mt. isspace U c))"

text \<open>
  From one matcher state to a later one the characters consumed all belong to a class.
\<close>

definition eats :: "(nat \<Rightarrow> bool) \<Rightarrow> mstate \<Rightarrow> mstate \<Rightarrow> bool" where
  "eats P st st' = (\<exists>u. fst (snd st) = u @ fst (snd st') \<and> (\<forall>c\<in>set u. P c))"

text \<open>
  The shape of a captured heading: digits, a dot or a closing parenthesis, white space, a
  capital letter, one or more letters or white space, a colon (code point 58).
\<close>

definition is_heading :: "tables \<Rightarrow> ustr \<Rightarrow> bool" where
  "is_heading U x = (\<exists>ds sep sp cap tl.
      x = ds @ [sep] @ sp @ [cap] @ tl @ [58] \<and>
      ds \<noteq> [] \<and> (\<forall>c\<in>set ds. isdecimal U c) \<and> (sep = 46 \<or> sep = 41) \<and>
      (\<forall>c\<in>set sp. isspace U c) \<and> 65 \<le> cap \<and> cap \<le> 90 \<and> tl \<noteq> [] \<and>
      (\<forall>c\<in>set tl. (65 \<le> c \<and> c \<le> 90) \<or> (97 \<le> c \<and> c \<le> 122) \<or> isspace U c))"

text \<open>
  A match token of the heading pattern: at most one leading white-space character, then
  the captured heading.
\<close>

fun tok_hd :: "tables \<Rightarrow> tok \<Rightarrow> bool" where
  "tok_hd U (Plain c) = True"
| "tok_hd U (Match mt g) =
     (\<exists>w x. mt = w @ x \<and> g = Some x \<and> is_heading U x \<and> (\<forall>c\<in>set w. isspace U c))"

text \<open>
  Two texts agree up to white space when they are equal after every white-space character
  is dropped. Collapsing runs of white space and trimming both keep \<open>squeeze\<close>, so this
  is the weakest reading of ``up to whitespace normalization''.
\<close>

definition squeeze :: "tables \<Rightarrow> ustr \<Rightarrow> ustr" where
  "squeeze U s = filter (\<lambda>c. \<not> isspace U c) s"

text \<open>
  The body segments of a split: in the list after \<^verbatim>\<open>parts[0]\<close>, the second element of
  each pair (heading, body), that is \<^verbatim>\<open>parts[i + 1]\<close> for the \<open>i\<close> of the loop.
\<close>

fun bodies :: "ustr option list \<Rightarrow> ustr list" where
  "bodies (h # Some b # ps) = b # bodies ps"
| "bodies ps = []"

text \<open>The text before the first heading: \<^verbatim>\<open>parts[0]\<close>, which the loop never reads.\<close>

definition preamble :: "tables \<Rightarrow> ustr \<Rightarrow> ustr" where
  "preamble U t =
     (case re_split U heading (re_sub U ws (str '' '') t) of Some x # ps \<Rightarrow> x | _ \<Rightarrow> [])"

subsection \<open>Notions for the statements about scores\<close>

text \<open>A keyword is present in a text: it occurs in the lower-cased text.\<close>

definition has :: "tables \<Rightarrow> ustr \<Rightarrow> string \<Rightarrow> bool" where
  "has U t k = isin (str k) (lower U t)"

text \<open>
  The types with the greatest score, in the order of the dictionary: the candidates of a
  tie.
\<close>

definition maximal_types :: "(string \<times> int) list \<Rightarrow> string list" where
  "maximal_types sc = map fst (filter (\<lambda>kn. snd kn = Max (snd ` set sc)) sc)"


section \<open>Properties\<close>

subsection \<open>Aggregation of clause tiers\<close>

lemma overall_rank_Max:
  assumes "risks \<noteq> []"
  shows "tier_rank (overall risks) = Max (tier_rank ` set risks)"
proof (rule sym, rule Max_eqI)
  show "finite (tier_rank ` set risks)" by simp
next
  fix y assume "y \<in> tier_rank ` set risks"
  then obtain t where t: "t \<in> set risks" and y: "y = tier_rank t" by blast
  show "y \<le> tier_rank (overall risks)"
  proof (cases t)
    case High with t y show ?thesis by (simp add: overall_def)
  next
    case Medium with t y show ?thesis by (simp add: overall_def)
  next
    case Low with y show ?thesis by simp
  qed
next
  obtain t where t: "t \<in> set risks" using assms by (cases risks) auto
  have "overall risks \<in> set risks"
  proof (cases "High \<in> set risks")
    case True then show ?thesis by (simp add: overall_def)
  next
    case nh: False
    show ?thesis
    proof (cases "Medium \<in> set risks")
      case True with nh show ?thesis by (simp add: overall_def)
    next
      case False
      with nh t have "t = Low" by (cases t) auto
      with t nh False show ?thesis by (simp add: overall_def)
    qed
  qed
  then show "tier_rank (overall risks) \<in> tier_rank ` set risks" by blast
qed

text \<open>
  C7. For every non-empty list of clause tiers, the overall tier is the greatest tier of
  the list under Low < Medium < High: it is High if some clause is High, otherwise Medium
  if some clause is Medium, otherwise Low.
\<close>

theorem overall_is_max_tier:
  assumes "risks \<noteq> []"
  shows "tier_rank (overall risks) = Max (tier_rank ` set risks)
       \<and> overall risks =
           (if High \<in> set risks then High else if Medium \<in> set risks then Medium else Low)"
  using overall_rank_Max [OF assms] by (simp add: overall_def)

theorem overall_is_max_tier_witness:
  "[Low, Medium, Low] \<noteq> [] \<and> overall [Low, Medium, Low] = Medium
   \<and> tier_rank (overall [Low, Medium, Low]) = Max (tier_rank ` set [Low, Medium, Low])"
  using overall_is_max_tier [of "[Low, Medium, Low]"] by simp

subsection \<open>Clause splitting never fails and never returns an empty list\<close>

lemma m_Grp_Some: "st' \<in> set (m U (Grp r) st) \<Longrightarrow> snd (snd st') \<noteq> None"
  by (cases st) auto

lemma m_Seq_Grp_Some:
  assumes "st' \<in> set (m U (Seq a (Grp r)) st)"
  shows "snd (snd st') \<noteq> None"
proof -
  from assms obtain x where "st' \<in> set (m U (Grp r) x)"
    by (auto simp del: m.simps(5))
  then show ?thesis by (rule m_Grp_Some)
qed

lemma match_at_heading_grp:
  assumes a: "match_at U heading p s = Some (mt, g)"
  shows "g \<noteq> None"
proof -
  from a obtain p' s' rest where e: "m U heading (p, s, None) = (p', s', g) # rest"
    by (auto simp: match_at_def split: list.splits)
  then have "(p', s', g) \<in> set (m U heading (p, s, None))" by simp
  then have "snd (snd (p', s', g)) \<noteq> None"
    unfolding heading_def by (rule m_Seq_Grp_Some)
  then show ?thesis by simp
qed

lemma scan_grp:
  assumes "\<And>p s mt g. match_at U r p s = Some (mt, g) \<Longrightarrow> g \<noteq> None"
  shows "list_all tok_grp (scan U r k p s)"
  using assms
proof (induction U r k p s rule: scan.induct)
  case (1 U r k p)
  then show ?case by (auto split: option.splits)
next
  case (2 U r k p c cs)
  then show ?case by simp
next
  case (3 U r p c cs)
  show ?case
  proof (cases "match_at U r p (c # cs)")
    case None
    with 3 show ?thesis by simp
  next
    case (Some x)
    obtain mt g where x: "x = (mt, g)" by (cases x)
    with Some 3(4) have g: "g \<noteq> None" by blast
    show ?thesis
    proof (cases "mt = []")
      case True
      with 3(2) [OF Some [unfolded x] refl] 3(4) Some x g show ?thesis by simp
    next
      case False
      with 3(3) [OF Some [unfolded x] refl] 3(4) Some x g show ?thesis by simp
    qed
  qed
qed

lemma scan_heading_grp: "list_all tok_grp (scan U heading k p s)"
  by (rule scan_grp) (rule match_at_heading_grp)

lemma split_toks_hd: "\<exists>y ys. split_toks grp acc ts = Some y # ys"
  by (induction grp acc ts rule: split_toks.induct) auto

lemma has_grp_heading: "has_grp heading"
  by (simp add: heading_def)

lemma clause_loop_split_toks:
  "list_all tok_grp ts \<Longrightarrow> \<exists>cs. clause_loop U (drop 1 (split_toks True acc ts)) = Inr cs"
proof (induction True acc ts rule: split_toks.induct)
  case (1 acc)
  then show ?case by simp
next
  case (2 acc c ts)
  then show ?case by simp
next
  case (3 acc mt g ts)
  then obtain x where g: "g = Some x" by auto
  from 3 obtain cs where cs: "clause_loop U (drop 1 (split_toks True [] ts)) = Inr cs" by auto
  obtain y ys where sp: "split_toks True [] ts = Some y # ys"
    using split_toks_hd by blast
  with cs g show ?case by simp
qed

lemma re_search_None_scan:
  "re_search U r p s = None \<Longrightarrow> scan U r 0 p s = map Plain s"
  by (induction s arbitrary: p) (auto split: option.splits)

lemma split_toks_Plain: "split_toks grp acc (map Plain s) = [Some (rev acc @ s)]"
  by (induction s arbitrary: acc) auto

lemma extract_clauses_Inr: "\<exists>cs. extract_clauses U t = Inr cs \<and> cs \<noteq> []"
proof -
  have "\<exists>cs. clause_loop U (drop 1 (split_toks True []
           (scan U heading 0 None (re_sub U ws (str '' '') t)))) = Inr cs"
    by (rule clause_loop_split_toks [OF scan_heading_grp])
  then obtain cs where
    "clause_loop U (drop 1 (re_split U heading (re_sub U ws (str '' '') t))) = Inr cs"
    by (auto simp: re_split_def has_grp_heading)
  then show ?thesis by (simp add: extract_clauses_def Let_def)
qed

lemma extract_clauses_fallback:
  assumes "re_search U heading None (re_sub U ws (str '' '') t) = None"
  shows "extract_clauses U t = Inr [\<lparr>title = str ''General Clause'', text' = re_sub U ws (str '' '') t\<rparr>]"
  using re_search_None_scan [OF assms]
  by (simp add: extract_clauses_def Let_def re_split_def split_toks_Plain)

text \<open>The substitution of \<^verbatim>\<open>\s+\<close> by a blank is the collapse of white space.\<close>

lemma rep_star_Set_hd:
  "rep (m U (Set as)) 0 None (p, s, g) \<noteq> [] \<and>
   (\<exists>q. hd (rep (m U (Set as)) 0 None (p, s, g))
        = (q, dropWhile (\<lambda>c. list_ex (\<lambda>a. atom_ok U a c) as) s, g))"
proof (induction s arbitrary: p)
  case Nil
  have "rep (m U (Set as)) 0 None (p, [], g) = [(p, [], g)]"
    using rep.simps [of "m U (Set as)" 0 None "(p, [], g)"] by simp
  then show ?case by simp
next
  case (Cons c cs)
  show ?case
  proof (cases "list_ex (\<lambda>a. atom_ok U a c) as")
    case True
    then have "rep (m U (Set as)) 0 None (p, c # cs, g)
        = rep (m U (Set as)) 0 None (Some c, cs, g) @ [(p, c # cs, g)]"
      using rep.simps [of "m U (Set as)" 0 None "(p, c # cs, g)"] by simp
    with Cons.IH [of "Some c"] True show ?thesis by auto
  next
    case False
    then have "rep (m U (Set as)) 0 None (p, c # cs, g) = [(p, c # cs, g)]"
      using rep.simps [of "m U (Set as)" 0 None "(p, c # cs, g)"] by simp
    with False show ?thesis by simp
  qed
qed

lemma match_at_ws_eq:
  "match_at U ws p s =
     (case s of [] \<Rightarrow> None
      | c # cs \<Rightarrow> if isspace U c then Some (c # takeWhile (isspace U) cs, None) else None)"
proof (cases s)
  case Nil
  have "rep (m U (Set [Space])) (Suc 0) None (p, [], None) = []"
    using rep.simps [of "m U (Set [Space])" "Suc 0" None "(p, [], None)"] by simp
  with Nil show ?thesis by (simp add: match_at_def ws_def)
next
  case (Cons c cs)
  show ?thesis
  proof (cases "isspace U c")
    case False
    then have "rep (m U (Set [Space])) (Suc 0) None (p, c # cs, None) = []"
      using rep.simps [of "m U (Set [Space])" "Suc 0" None "(p, c # cs, None)"] by simp
    with Cons False show ?thesis by (simp add: match_at_def ws_def)
  next
    case True
    then have e: "rep (m U (Set [Space])) (Suc 0) None (p, c # cs, None)
        = rep (m U (Set [Space])) 0 None (Some c, cs, None)"
      using rep.simps [of "m U (Set [Space])" "Suc 0" None "(p, c # cs, None)"] by simp
    from rep_star_Set_hd [of U "[Space]" "Some c" cs None]
    obtain q rest where r: "rep (m U (Set [Space])) 0 None (Some c, cs, None)
        = (q, dropWhile (isspace U) cs, None) # rest"
      by (cases "rep (m U (Set [Space])) 0 None (Some c, cs, None)") auto
    have "length (takeWhile (isspace U) cs) + length (dropWhile (isspace U) cs) = length cs"
      by (simp only: length_append [symmetric] takeWhile_dropWhile_id)
    then have n: "Suc (length cs) - length (dropWhile (isspace U) cs)
        = Suc (length (takeWhile (isspace U) cs))"
      by arith
    have "take (length (takeWhile (isspace U) cs)) cs = takeWhile (isspace U) cs"
      by (rule takeWhile_eq_take [symmetric])
    then have tk: "take (Suc (length cs) - length (dropWhile (isspace U) cs)) (c # cs)
        = c # takeWhile (isspace U) cs"
      by (simp only: n take_Suc_Cons)
    from Cons True e r tk show ?thesis by (simp add: match_at_def ws_def)
  qed
qed

lemma scan_ws_collapse:
  "k \<le> length s \<Longrightarrow>
   concat (map (\<lambda>t. case t of Plain c \<Rightarrow> [c] | Match mt g \<Rightarrow> [32]) (scan U ws k p s))
     = collapse U (drop k s)"
proof (induction s arbitrary: k p)
  case Nil
  then show ?case by (simp add: match_at_ws_eq)
next
  case (Cons c cs)
  show ?case
  proof (cases k)
    case (Suc k')
    with Cons show ?thesis by simp
  next
    case 0
    show ?thesis
    proof (cases "isspace U c")
      case False
      with 0 Cons.IH [of 0 "Some c"] show ?thesis by (simp add: match_at_ws_eq)
    next
      case True
      have "length (takeWhile (isspace U) cs) \<le> length cs" by (rule length_takeWhile_le)
      from Cons.IH [OF this, of "Some c"]
      have "concat (map (\<lambda>t. case t of Plain c \<Rightarrow> [c] | Match mt g \<Rightarrow> [32])
               (scan U ws (length (takeWhile (isspace U) cs)) (Some c) cs))
          = collapse U (dropWhile (isspace U) cs)"
        by (simp add: dropWhile_eq_drop)
      with 0 True show ?thesis by (simp add: match_at_ws_eq)
    qed
  qed
qed

lemma re_sub_ws_collapse: "re_sub U ws (str '' '') s = collapse U s"
  using scan_ws_collapse [of 0 s U None] by (simp add: re_sub_def str_def)

text \<open>
  C1. For every input text, \<^verbatim>\<open>extract_clauses\<close> returns (it raises nothing) a
  non-empty list of clauses; and when the heading pattern matches nowhere in the
  whitespace-collapsed text, the result is the single clause titled "General Clause"
  whose text is the whole whitespace-collapsed input.
\<close>

theorem extract_clauses_nonempty:
  "\<exists>cs. extract_clauses U t = Inr cs \<and> cs \<noteq> [] \<and>
     (re_search U heading None (collapse U t) = None \<longrightarrow>
        cs = [\<lparr>title = str ''General Clause'', text' = collapse U t\<rparr>])"
  using extract_clauses_Inr [of U t] extract_clauses_fallback [of U t]
  by (auto simp: re_sub_ws_collapse)

lemma collapse_pay_rent: "collapse ascii (str ''Pay  rent   monthly'') = str ''Pay rent monthly''"
  by code_simp

lemma search_pay_rent: "re_search ascii heading None (str ''Pay rent monthly'') = None"
  by code_simp

theorem extract_clauses_nonempty_witness:
  "re_search ascii heading None (collapse ascii (str ''Pay  rent   monthly'')) = None \<and>
   extract_clauses ascii (str ''Pay  rent   monthly'') =
     Inr [\<lparr>title = str ''General Clause'', text' = str ''Pay rent monthly''\<rparr>]"
  using extract_clauses_nonempty [of ascii "str ''Pay  rent   monthly''"]
  by (auto simp only: collapse_pay_rent search_pay_rent)

subsection \<open>What a match consumes\<close>

lemma rep_suffix:
  assumes "st' \<in> set (rep f lo hi st)"
    and "\<And>x y. y \<in> set (f x) \<Longrightarrow> suffix (fst (snd y)) (fst (snd x))"
  shows "suffix (fst (snd st')) (fst (snd st))"
  using assms
proof (induction f lo hi st rule: rep.induct)
  case (1 f lo hi st)
  show ?case
  proof (cases "hi = Some 0")
    case True
    with 1(2) show ?thesis by (subst (asm) rep.simps) simp
  next
    case False
    from 1(2) False consider "st' = st"
      | x where "x \<in> set (f st)" "length (fst (snd x)) < length (fst (snd st))"
          "st' \<in> set (rep f (lo - 1) (map_option (\<lambda>h. h - 1) hi) x)"
      by (subst (asm) rep.simps) (auto split: if_splits)
    then show ?thesis
    proof cases
      case 1
      then show ?thesis by simp
    next
      case 2
      have "x \<in> set (filter (\<lambda>st'. length (fst (snd st')) < length (fst (snd st))) (f st))"
        using 2(1,2) by simp
      from 1(1) [OF False this 2(3) 1(3)]
      have "suffix (fst (snd st')) (fst (snd x))" .
      moreover from 1(3) [OF 2(1)] have "suffix (fst (snd x)) (fst (snd st))" .
      ultimately show ?thesis by (rule suffix_order.trans)
    qed
  qed
qed

lemma m_suffix: "st' \<in> set (m U r st) \<Longrightarrow> suffix (fst (snd st')) (fst (snd st))"
proof (induction r arbitrary: st st')
  case (Set as)
  obtain p s g where st: "st = (p, s, g)" by (cases st)
  show ?case
  proof (cases s)
    case Nil
    with Set st show ?thesis by simp
  next
    case (Cons c cs)
    with Set st have "st' = (Some c, cs, g)" by (simp split: if_splits)
    with st Cons show ?thesis by (simp add: suffix_Cons)
  qed
next
  case (Seq a b)
  from Seq.prems obtain x where x: "x \<in> set (m U a st)" "st' \<in> set (m U b x)" by auto
  from Seq.IH(1) [OF x(1)] Seq.IH(2) [OF x(2)] show ?case by (rule suffix_order.trans [rotated])
next
  case (Alt a b)
  from Alt.prems have "st' \<in> set (m U a st) \<or> st' \<in> set (m U b st)" by simp
  then show ?case using Alt.IH by blast
next
  case (Rep lo hi r)
  from Rep.prems have "st' \<in> set (rep (m U r) lo hi st)" by simp
  then show ?case using Rep.IH by (rule rep_suffix)
next
  case (Grp r)
  obtain p s g where st: "st = (p, s, g)" by (cases st)
  with Grp.prems obtain x where x: "x \<in> set (m U r st)" and "fst (snd st') = fst (snd x)"
    by auto
  with Grp.IH [OF x] show ?case by simp
next
  case Bol
  obtain p s g where st: "st = (p, s, g)" by (cases st)
  with Bol show ?case by (simp split: if_splits)
next
  case Wordb
  obtain p s g where st: "st = (p, s, g)" by (cases st)
  with Wordb show ?case by (simp split: if_splits)
next
  case Eps
  then show ?case by simp
qed

lemma rep_rel:
  assumes "st' \<in> set (rep f lo hi st)"
    and "\<And>x y. y \<in> set (f x) \<Longrightarrow> R x y"
    and "\<And>x. R x x"
    and "\<And>x y z. R x y \<Longrightarrow> R y z \<Longrightarrow> R x z"
  shows "R st st'"
  using assms(1,2)
proof (induction f lo hi st rule: rep.induct)
  case (1 f lo hi st)
  show ?case
  proof (cases "hi = Some 0")
    case True
    with 1(2) have "st' = st" by (subst (asm) rep.simps) simp
    then show ?thesis by (simp add: assms(3))
  next
    case False
    from 1(2) False consider "st' = st"
      | x where "x \<in> set (f st)" "length (fst (snd x)) < length (fst (snd st))"
          "st' \<in> set (rep f (lo - 1) (map_option (\<lambda>h. h - 1) hi) x)"
      by (subst (asm) rep.simps) (auto split: if_splits)
    then show ?thesis
    proof cases
      case 1
      then show ?thesis by (simp add: assms(3))
    next
      case 2
      have "x \<in> set (filter (\<lambda>st'. length (fst (snd st')) < length (fst (snd st))) (f st))"
        using 2(1,2) by simp
      from 1(1) [OF False this 2(3) 1(3)] have "R x st'" .
      moreover from 1(3) [OF 2(1)] have "R st x" .
      ultimately show ?thesis using assms(4) by blast
    qed
  qed
qed

lemma rep_progress:
  assumes "st' \<in> set (rep f lo hi st)" and "0 < lo" and "hi \<noteq> Some 0"
    and "\<And>x y. y \<in> set (f x) \<Longrightarrow> suffix (fst (snd y)) (fst (snd x))"
  shows "length (fst (snd st')) < length (fst (snd st))"
proof -
  from assms(1,2,3) obtain x where x: "x \<in> set (f st)"
      "length (fst (snd x)) < length (fst (snd st))"
      "st' \<in> set (rep f (lo - 1) (map_option (\<lambda>h. h - 1) hi) x)"
    by (subst (asm) rep.simps) (auto split: if_splits)
  from rep_suffix [OF x(3) assms(4)] have "length (fst (snd st')) \<le> length (fst (snd x))"
    by (rule suffix_length_le)
  with x(2) show ?thesis by simp
qed

lemma eats_refl: "eats P x x"
  by (simp add: eats_def)

lemma eats_trans:
  assumes "eats P x y" and "eats P y z"
  shows "eats P x z"
proof -
  from assms obtain u v where "fst (snd x) = u @ fst (snd y)" "\<forall>c\<in>set u. P c"
      "fst (snd y) = v @ fst (snd z)" "\<forall>c\<in>set v. P c"
    unfolding eats_def by blast
  then have "fst (snd x) = (u @ v) @ fst (snd z) \<and> (\<forall>c\<in>set (u @ v). P c)" by auto
  then show ?thesis unfolding eats_def by blast
qed

lemma m_Set_eats:
  assumes "y \<in> set (m U (Set as) x)"
  shows "\<exists>c. fst (snd x) = c # fst (snd y) \<and> list_ex (\<lambda>a. atom_ok U a c) as \<and> snd (snd y) = snd (snd x)"
proof -
  obtain p s g where x: "x = (p, s, g)" by (cases x)
  show ?thesis
  proof (cases s)
    case Nil
    with assms x show ?thesis by simp
  next
    case (Cons c cs)
    with assms x have "y = (Some c, cs, g) \<and> list_ex (\<lambda>a. atom_ok U a c) as" by (simp split: if_splits)
    with x Cons show ?thesis by simp
  qed
qed

lemma rep_Set_eats:
  assumes "st' \<in> set (rep (m U (Set as)) lo hi st)"
  shows "eats (\<lambda>c. list_ex (\<lambda>a. atom_ok U a c) as) st st'"
proof (rule rep_rel [OF assms])
  fix x y assume "y \<in> set (m U (Set as) x)"
  from m_Set_eats [OF this] obtain c where "fst (snd x) = [c] @ fst (snd y)" "list_ex (\<lambda>a. atom_ok U a c) as"
    by auto
  then show "eats (\<lambda>c. list_ex (\<lambda>a. atom_ok U a c) as) x y" unfolding eats_def by (intro exI [of _ "[c]"]) simp
next
  fix x :: mstate show "eats (\<lambda>c. list_ex (\<lambda>a. atom_ok U a c) as) x x" by (rule eats_refl)
next
  fix x y z :: mstate
  assume "eats (\<lambda>c. list_ex (\<lambda>a. atom_ok U a c) as) x y" "eats (\<lambda>c. list_ex (\<lambda>a. atom_ok U a c) as) y z"
  then show "eats (\<lambda>c. list_ex (\<lambda>a. atom_ok U a c) as) x z" by (rule eats_trans)
qed

lemma match_at_ws:
  assumes "match_at U ws p s = Some (mt, g)"
  shows "mt \<noteq> [] \<and> (\<forall>c\<in>set mt. isspace U c)"
proof -
  from assms obtain p' s' rest where e: "m U ws (p, s, None) = (p', s', g) # rest"
      and mt: "mt = take (length s - length s') s"
    by (auto simp: match_at_def split: list.splits)
  then have mem: "(p', s', g) \<in> set (rep (m U (Set [Space])) 1 None (p, s, None))"
    by (simp add: ws_def)
  from rep_Set_eats [OF mem] obtain u where u: "s = u @ s'" "\<forall>c\<in>set u. isspace U c"
    by (auto simp: eats_def)
  have suf: "\<And>x y. y \<in> set (m U (Set [Space]) x) \<Longrightarrow> suffix (fst (snd y)) (fst (snd x))"
    by (rule m_suffix)
  have "length (fst (snd (p', s', g))) < length (fst (snd (p, s, None::ustr option)))"
    by (rule rep_progress [OF mem _ _ suf]) simp_all
  then have "length s' < length s" by simp
  with u mt show ?thesis by auto
qed

lemma rep_Set_plus:
  assumes "st' \<in> set (rep (m U (Set as)) (Suc 0) None st)"
  shows "\<exists>u. fst (snd st) = u @ fst (snd st') \<and> u \<noteq> [] \<and> (\<forall>c\<in>set u. list_ex (\<lambda>a. atom_ok U a c) as)"
proof -
  from rep_Set_eats [OF assms] obtain u where u: "fst (snd st) = u @ fst (snd st')"
      "\<forall>c\<in>set u. list_ex (\<lambda>a. atom_ok U a c) as"
    unfolding eats_def by blast
  have suf: "\<And>x y. y \<in> set (m U (Set as) x) \<Longrightarrow> suffix (fst (snd y)) (fst (snd x))"
    by (rule m_suffix)
  have "length (fst (snd st')) < length (fst (snd st))"
    by (rule rep_progress [OF assms _ _ suf]) simp_all
  with u have "u \<noteq> []" by auto
  with u show ?thesis by blast
qed

lemma heading_body:
  assumes "st' \<in> set (m U (Seq (Rep 1 None (Set [Digit]))
           (Seq (Set [Ch CHR ''.'', Ch CHR '')''])
           (Seq (Rep 0 None (Set [Space]))
           (Seq (Set [Rng CHR ''A'' CHR ''Z''])
           (Seq (Rep 1 None (Set [Rng CHR ''A'' CHR ''Z'', Rng CHR ''a'' CHR ''z'', Space]))
                (Set [Ch CHR '':'']))))))  st)"
  shows "\<exists>x. fst (snd st) = x @ fst (snd st') \<and> is_heading U x"
proof -
  from assms obtain y1 y2 y3 y4 y5 where
    1: "y1 \<in> set (rep (m U (Set [Digit])) (Suc 0) None st)" and
    2: "y2 \<in> set (m U (Set [Ch CHR ''.'', Ch CHR '')'']) y1)" and
    3: "y3 \<in> set (rep (m U (Set [Space])) 0 None y2)" and
    4: "y4 \<in> set (m U (Set [Rng CHR ''A'' CHR ''Z'']) y3)" and
    5: "y5 \<in> set (rep (m U (Set [Rng CHR ''A'' CHR ''Z'', Rng CHR ''a'' CHR ''z'', Space])) (Suc 0) None y4)" and
    6: "st' \<in> set (m U (Set [Ch CHR '':'']) y5)"
    by (auto simp del: m.simps(1))
  from rep_Set_plus [OF 1] obtain ds where ds: "fst (snd st) = ds @ fst (snd y1)" "ds \<noteq> []"
      "\<forall>c\<in>set ds. isdecimal U c" by auto
  from m_Set_eats [OF 2] obtain sep where sep: "fst (snd y1) = sep # fst (snd y2)"
      "sep = 46 \<or> sep = 41" by auto
  from rep_Set_eats [OF 3] obtain sp where sp: "fst (snd y2) = sp @ fst (snd y3)"
      "\<forall>c\<in>set sp. isspace U c" unfolding eats_def by auto
  from m_Set_eats [OF 4] obtain cap where cap: "fst (snd y3) = cap # fst (snd y4)"
      "65 \<le> cap \<and> cap \<le> 90" by auto
  from rep_Set_plus [OF 5] obtain tl where tl: "fst (snd y4) = tl @ fst (snd y5)" "tl \<noteq> []"
      "\<forall>c\<in>set tl. (65 \<le> c \<and> c \<le> 90) \<or> (97 \<le> c \<and> c \<le> 122) \<or> isspace U c" by auto
  from m_Set_eats [OF 6] have col: "fst (snd y5) = 58 # fst (snd st')" by auto
  have "fst (snd st) = (ds @ [sep] @ sp @ [cap] @ tl @ [58]) @ fst (snd st')"
    using ds(1) sep(1) sp(1) cap(1) tl(1) col by simp
  moreover have "is_heading U (ds @ [sep] @ sp @ [cap] @ tl @ [58])"
    unfolding is_heading_def using ds(2,3) sep(2) sp(2) cap(2) tl(2,3) by blast
  ultimately show ?thesis by blast
qed

lemma match_at_heading:
  assumes "match_at U heading p s = Some (mt, g)"
  shows "\<exists>w x. mt = w @ x \<and> g = Some x \<and> is_heading U x \<and> (\<forall>c\<in>set w. isspace U c)"
proof -
  let ?body = "Seq (Rep 1 None (Set [Digit]))
           (Seq (Set [Ch CHR ''.'', Ch CHR '')''])
           (Seq (Rep 0 None (Set [Space]))
           (Seq (Set [Rng CHR ''A'' CHR ''Z''])
           (Seq (Rep 1 None (Set [Rng CHR ''A'' CHR ''Z'', Rng CHR ''a'' CHR ''z'', Space]))
                (Set [Ch CHR '':''])))))"
  from assms obtain p' s' rest where e: "m U heading (p, s, None) = (p', s', g) # rest"
      and mt: "mt = take (length s - length s') s"
    by (auto simp: match_at_def split: list.splits)
  then have "(p', s', g) \<in> set (m U heading (p, s, None))" by simp
  then obtain x1 where x1: "x1 \<in> set (m U (Alt Bol (Set [Space])) (p, s, None))"
      and g1: "(p', s', g) \<in> set (m U (Grp ?body) x1)"
    unfolding heading_def by (auto simp del: m.simps(1,3,5))
  obtain p1 s1 g1 where x1eq: "x1 = (p1, s1, g1)" by (cases x1)
  from x1 have "x1 \<in> set (m U Bol (p, s, None)) \<or> x1 \<in> set (m U (Set [Space]) (p, s, None))"
    by simp
  then obtain w where w: "s = w @ s1" "\<forall>c\<in>set w. isspace U c"
  proof
    assume "x1 \<in> set (m U Bol (p, s, None))"
    with x1eq have "s = [] @ s1" by (simp split: if_splits)
    then show ?thesis using that by fastforce
  next
    assume "x1 \<in> set (m U (Set [Space]) (p, s, None))"
    from m_Set_eats [OF this] x1eq obtain c where "s = [c] @ s1" "isspace U c" by auto
    then show ?thesis using that [of "[c]"] by simp
  qed
  from g1 x1eq obtain y where y: "y \<in> set (m U ?body x1)" and s': "fst (snd y) = s'"
      and g: "g = Some (take (length s1 - length s') s1)"
    by (auto simp del: m.simps(1,2,4))
  from heading_body [OF y] x1eq s' obtain x where x: "s1 = x @ s'" "is_heading U x" by auto
  from x(1) g have "g = Some x" by simp
  moreover from w(1) x(1) mt have "mt = w @ x" by simp
  ultimately show ?thesis using x(2) w(2) by blast
qed

subsection \<open>The scan cuts the string without losing a character\<close>

lemma match_at_prefix: "match_at U r p s = Some (mt, g) \<Longrightarrow> mt = take (length mt) s"
  by (auto simp: match_at_def split: list.splits)

lemma scan_concat: "concat (map tok_text (scan U r k p s)) = drop k s"
proof (induct U r k p s rule: scan.induct)
  case (1 U r k p)
  show ?case
  proof (cases "match_at U r p []")
    case None
    then show ?thesis by (cases k) simp_all
  next
    case (Some x)
    obtain mt g where x: "x = (mt, g)" by (cases x)
    from Some x have "mt = take (length mt) []" by (auto dest: match_at_prefix)
    then have "mt = []" by simp
    with Some x show ?thesis by (cases k) simp_all
  qed
next
  case (2 U r k p c cs)
  then show ?case by simp
next
  case (3 U r p c cs)
  show ?case
  proof (cases "match_at U r p (c # cs)")
    case None
    with 3 show ?thesis by simp
  next
    case (Some x)
    obtain mt g where x: "x = (mt, g)" by (cases x)
    from Some x have pre: "mt = take (length mt) (c # cs)" by (auto dest: match_at_prefix)
    show ?thesis
    proof (cases "mt = []")
      case True
      with 3(2) [OF Some [unfolded x] refl] Some x show ?thesis by simp
    next
      case False
      then obtain n where n: "length mt = Suc n" by (cases mt) auto
      from 3(3) [OF Some [unfolded x] refl False]
      have "concat (map tok_text (scan U r (length mt - 1) (Some c) cs)) = drop n cs"
        using n by simp
      moreover from pre n have "mt = c # take n cs" by simp
      ultimately show ?thesis using Some x False by simp
    qed
  qed
qed

lemma squeeze_append: "squeeze U (a @ b) = squeeze U a @ squeeze U b"
  by (simp add: squeeze_def)

lemma squeeze_concat: "squeeze U (concat xs) = concat (map (squeeze U) xs)"
  by (induction xs) (simp_all add: squeeze_append squeeze_def)

lemma squeeze_spaces: "\<forall>c\<in>set w. isspace U c \<Longrightarrow> squeeze U w = []"
  by (induction w) (simp_all add: squeeze_def)

lemma scan_all:
  assumes "\<And>p s mt g. match_at U r p s = Some (mt, g) \<Longrightarrow> Q (Match mt g)"
    and "\<And>c. Q (Plain c)"
  shows "list_all Q (scan U r k p s)"
  using assms
proof (induction U r k p s rule: scan.induct)
  case (1 U r k p)
  then show ?case by (auto split: option.splits)
next
  case (2 U r k p c cs)
  then show ?case by simp
next
  case (3 U r p c cs)
  show ?case
  proof (cases "match_at U r p (c # cs)")
    case None
    with 3 show ?thesis by simp
  next
    case (Some x)
    obtain mt g where x: "x = (mt, g)" by (cases x)
    with Some 3(4) have g: "Q (Match mt g)" by blast
    show ?thesis
    proof (cases "mt = []")
      case True
      with 3(2) [OF Some [unfolded x] refl] 3(4,5) Some x g show ?thesis by simp
    next
      case False
      with 3(3) [OF Some [unfolded x] refl] 3(4,5) Some x g show ?thesis by simp
    qed
  qed
qed

lemma scan_ws: "list_all (tok_ws U) (scan U ws k p s)"
  by (rule scan_all) (use match_at_ws in auto)

lemma squeeze_re_sub_ws:
  assumes "isspace U 32"
  shows "squeeze U (re_sub U ws (str '' '') s) = squeeze U s"
proof -
  have "squeeze U (case t of Plain c \<Rightarrow> [c] | Match mt g \<Rightarrow> str '' '') = squeeze U (tok_text t)"
    if "tok_ws U t" for t
    using that assms by (cases t) (simp_all add: str_def squeeze_def)
  then have "map (\<lambda>t. squeeze U (case t of Plain c \<Rightarrow> [c] | Match mt g \<Rightarrow> str '' '')) (scan U ws 0 None s)
      = map (\<lambda>t. squeeze U (tok_text t)) (scan U ws 0 None s)"
    using scan_ws [of U 0 None s] by (intro map_cong refl) (simp add: list_all_iff)
  then have "concat (map (\<lambda>t. squeeze U (case t of Plain c \<Rightarrow> [c] | Match mt g \<Rightarrow> str '' '')) (scan U ws 0 None s))
      = concat (map (\<lambda>t. squeeze U (tok_text t)) (scan U ws 0 None s))"
    by (rule arg_cong)
  then have "squeeze U (re_sub U ws (str '' '') s) = squeeze U (concat (map tok_text (scan U ws 0 None s)))"
    by (simp only: re_sub_def squeeze_concat map_map comp_def)
  then show ?thesis by (simp add: scan_concat)
qed

lemma re_sub_nonempty:
  assumes "s \<noteq> []" and "repl \<noteq> []"
  shows "re_sub U r repl s \<noteq> []"
proof -
  from assms(1) obtain c cs where s: "s = c # cs" by (cases s) auto
  then obtain t ts where "scan U r 0 None s = t # ts"
    by (cases "match_at U r None (c # cs)") auto
  then show ?thesis using assms(2) by (cases t) (simp_all add: re_sub_def)
qed

subsection \<open>Stripping and the clause loop\<close>

lemma filter_dropWhile:
  "\<forall>c\<in>set a. P c \<longrightarrow> S c \<Longrightarrow> filter (\<lambda>c. \<not> S c) (dropWhile P a) = filter (\<lambda>c. \<not> S c) a"
  by (induction a) auto

lemma squeeze_Nil: "squeeze U [] = []"
  by (simp add: squeeze_def)

lemma squeeze_Cons: "squeeze U (c # s) = (if isspace U c then [] else [c]) @ squeeze U s"
  by (simp add: squeeze_def)

lemma squeeze_rev: "squeeze U (rev s) = rev (squeeze U s)"
  by (simp add: squeeze_def rev_filter)

lemma squeeze_strip: "squeeze U (strip U b) = squeeze U b"
proof -
  have "squeeze U (dropWhile (isspace U) a) = squeeze U a" for a
    unfolding squeeze_def by (rule filter_dropWhile) simp
  then show ?thesis by (simp add: strip_def strip_by_def squeeze_rev)
qed

lemma strip_empty_iff: "strip U b = [] \<longleftrightarrow> (\<forall>x\<in>set b. isspace U x)"
proof
  assume "strip U b = []"
  then have "squeeze U b = []" using squeeze_strip [of U b] by (simp add: squeeze_def)
  then show "\<forall>x\<in>set b. isspace U x" by (auto simp: squeeze_def filter_empty_conv)
next
  assume "\<forall>x\<in>set b. isspace U x"
  then have dw: "dropWhile (isspace U) b = []" by (induction b) simp_all
  show "strip U b = []" unfolding strip_def strip_by_def dw by simp
qed

lemma squeeze_title:
  assumes h: "is_heading U x" and d: "\<not> isdecimal U 32" "\<not> isdecimal U 58"
  shows "squeeze U (strip_chars '': '' x @ [58]) = squeeze U x"
proof -
  let ?P = "\<lambda>c. c \<in> set (str '': '')"
  have P: "?P c \<longleftrightarrow> c = 58 \<or> c = 32" for c by (auto simp: str_def)
  from h obtain ds sep sp cap tl where x: "x = ds @ [sep] @ sp @ [cap] @ tl @ [58]"
    and ds: "ds \<noteq> []" "\<forall>c\<in>set ds. isdecimal U c"
    and cap: "65 \<le> cap" "cap \<le> 90"
    and tl: "\<forall>c\<in>set tl. (65 \<le> c \<and> c \<le> 90) \<or> (97 \<le> c \<and> c \<le> 122) \<or> isspace U c"
    unfolding is_heading_def by blast
  from ds obtain d0 ds' where dd: "ds = d0 # ds'" "isdecimal U d0" by (cases ds) auto
  with d have "\<not> ?P d0" unfolding P by auto
  then have front: "dropWhile ?P x = x" unfolding x dd by simp
  have ncap: "\<not> ?P cap" unfolding P using cap by auto
  have "rev x = [58] @ (rev tl @ cap # rev (ds @ [sep] @ sp))" unfolding x by simp
  moreover have "?P 58" unfolding P by simp
  ultimately have "dropWhile ?P (rev x) = dropWhile ?P (rev tl @ cap # rev (ds @ [sep] @ sp))"
    by simp
  also have "\<dots> = dropWhile ?P (rev tl) @ cap # rev (ds @ [sep] @ sp)"
    using ncap by (rule dropWhile_append3)
  finally have st: "strip_chars '': '' x = (ds @ [sep] @ sp @ [cap]) @ rev (dropWhile ?P (rev tl))"
    by (simp add: strip_chars_def strip_by_def front)
  have "\<forall>c\<in>set (rev tl). ?P c \<longrightarrow> isspace U c" unfolding P using tl by auto
  then have "squeeze U (dropWhile ?P (rev tl)) = squeeze U (rev tl)"
    unfolding squeeze_def by (rule filter_dropWhile)
  then have "squeeze U (rev (dropWhile ?P (rev tl))) = squeeze U tl"
    by (simp add: squeeze_rev)
  then show ?thesis unfolding st unfolding x
    by (simp add: squeeze_append squeeze_Cons squeeze_Nil)
qed

lemma scan_heading_hd: "list_all (tok_hd U) (scan U heading k p s)"
  by (rule scan_all) (use match_at_heading in auto)

lemma clause_loop_tokens:
  "list_all (tok_hd U) ts \<Longrightarrow>
    \<exists>pre tl cs. split_toks True acc ts = Some pre # tl \<and> clause_loop U tl = Inr cs \<and>
       map text' cs = map (strip U) (bodies tl) \<and>
       (cs = [] \<longleftrightarrow> list_all is_plain ts) \<and>
       (list_all is_plain ts \<longrightarrow> pre = rev acc @ concat (map tok_text ts) \<and> tl = []) \<and>
       (isspace U 32 \<and> \<not> isdecimal U 32 \<and> \<not> isdecimal U 58 \<longrightarrow>
          squeeze U (pre @ concat (map (\<lambda>c. title c @ [58] @ text' c) cs))
            = squeeze U (rev acc @ concat (map tok_text ts)))"
proof (induction True acc ts rule: split_toks.induct)
  case (1 acc)
  then show ?case by simp
next
  case (2 acc c ts)
  then show ?case by simp
next
  case (3 acc mt g ts)
  from 3(2) obtain w x where mt: "mt = w @ x" "g = Some x" "is_heading U x" "\<forall>c\<in>set w. isspace U c"
    by auto
  from 3 obtain b tl cs where ih: "split_toks True [] ts = Some b # tl" "clause_loop U tl = Inr cs"
      "map text' cs = map (strip U) (bodies tl)"
      "isspace U 32 \<and> \<not> isdecimal U 32 \<and> \<not> isdecimal U 58 \<longrightarrow>
       squeeze U (b @ concat (map (\<lambda>c. title c @ [58] @ text' c) cs))
         = squeeze U (rev [] @ concat (map tok_text ts))"
    by auto
  let ?c = "\<lparr>title = strip_chars '': '' x, text' = strip U b\<rparr>"
  have sp: "split_toks True acc (Match mt g # ts) = Some (rev acc) # (Some x # Some b # tl)"
    using mt(2) ih(1) by simp
  have cl: "clause_loop U (Some x # Some b # tl) = Inr (?c # cs)"
    using ih(2) by simp
  have bd: "map text' (?c # cs) = map (strip U) (bodies (Some x # Some b # tl))"
    using ih(3) by simp
  have sq: "squeeze U (rev acc @ concat (map (\<lambda>c. title c @ [58] @ text' c) (?c # cs)))
      = squeeze U (rev acc @ concat (map tok_text (Match mt g # ts)))"
    if d: "isspace U 32 \<and> \<not> isdecimal U 32 \<and> \<not> isdecimal U 58"
  proof -
    define A where "A = title ?c @ [58] @ text' ?c"
    define R where "R = concat (map (\<lambda>c. title c @ [58] @ text' c) cs)"
    define K where "K = concat (map tok_text ts)"
    have h1: "squeeze U A = squeeze U x @ squeeze U b"
      unfolding A_def using squeeze_title [OF mt(3)] d squeeze_strip [of U b]
      by (simp add: squeeze_append squeeze_Cons squeeze_Nil)
    have h2: "squeeze U mt = squeeze U x"
      using mt(1,4) by (simp add: squeeze_append squeeze_spaces)
    have h3: "squeeze U b @ squeeze U R = squeeze U K"
      using ih(4) d unfolding R_def K_def by (simp add: squeeze_append)
    have "squeeze U (rev acc @ A @ R) = squeeze U (rev acc) @ squeeze U x @ (squeeze U b @ squeeze U R)"
      by (simp only: squeeze_append h1 append_assoc)
    also have "\<dots> = squeeze U (rev acc @ mt @ K)"
      by (simp only: squeeze_append h2 h3)
    finally show ?thesis
      unfolding A_def R_def K_def by simp
  qed
  show ?case
    apply (rule exI [of _ "rev acc"], rule exI [of _ "Some x # Some b # tl"], rule exI [of _ "?c # cs"])
    using sp cl bd sq by simp
qed

lemma re_search_Some_scan:
  "re_search U r p s \<noteq> None \<Longrightarrow> \<not> list_all is_plain (scan U r 0 p s)"
  by (induction s arbitrary: p) (auto split: option.splits)

lemma re_search_plain_iff:
  "re_search U r p s = None \<longleftrightarrow> list_all is_plain (scan U r 0 p s)"
proof
  assume "re_search U r p s = None"
  then have "scan U r 0 p s = map Plain s" by (rule re_search_None_scan)
  then show "list_all is_plain (scan U r 0 p s)" by (simp add: list_all_iff)
next
  assume "list_all is_plain (scan U r 0 p s)"
  then show "re_search U r p s = None" using re_search_Some_scan by blast
qed

lemma extract_clauses_shape:
  obtains pre tl cs0 where
    "re_split U heading (re_sub U ws (str '' '') T) = Some pre # tl"
    "clause_loop U tl = Inr cs0"
    "extract_clauses U T
       = Inr (if cs0 = []
              then [\<lparr>title = str ''General Clause'', text' = re_sub U ws (str '' '') T\<rparr>]
              else cs0)"
    "map text' cs0 = map (strip U) (bodies tl)"
    "cs0 = [] \<longleftrightarrow> re_search U heading None (re_sub U ws (str '' '') T) = None"
    "re_search U heading None (re_sub U ws (str '' '') T) = None \<longrightarrow>
       pre = re_sub U ws (str '' '') T \<and> tl = []"
    "isspace U 32 \<and> \<not> isdecimal U 32 \<and> \<not> isdecimal U 58 \<longrightarrow>
        squeeze U (pre @ concat (map (\<lambda>c. title c @ [58] @ text' c) cs0)) = squeeze U T"
proof -
  define tx where "tx = re_sub U ws (str '' '') T"
  let ?ts = "scan U heading 0 None tx"
  have "list_all (tok_hd U) ?ts" by (rule scan_heading_hd)
  from clause_loop_tokens [OF this, of "[]"]
  obtain pre tl cs where a: "split_toks True [] ?ts = Some pre # tl" "clause_loop U tl = Inr cs"
      "map text' cs = map (strip U) (bodies tl)"
      "cs = [] \<longleftrightarrow> list_all is_plain ?ts"
      "list_all is_plain ?ts \<longrightarrow> pre = rev [] @ concat (map tok_text ?ts) \<and> tl = []"
      "isspace U 32 \<and> \<not> isdecimal U 32 \<and> \<not> isdecimal U 58 \<longrightarrow>
          squeeze U (pre @ concat (map (\<lambda>c. title c @ [58] @ text' c) cs))
            = squeeze U (rev [] @ concat (map tok_text ?ts))"
    by blast
  have sp: "re_split U heading tx = Some pre # tl"
    using a(1) by (simp add: re_split_def has_grp_heading)
  have ex: "extract_clauses U T
       = Inr (if cs = [] then [\<lparr>title = str ''General Clause'', text' = tx\<rparr>] else cs)"
    using sp a(2) by (simp add: extract_clauses_def Let_def tx_def)
  have cc: "concat (map tok_text ?ts) = tx" by (simp add: scan_concat)
  have sq: "isspace U 32 \<Longrightarrow> squeeze U tx = squeeze U T"
    unfolding tx_def by (rule squeeze_re_sub_ws)
  show ?thesis
  proof (rule that [of pre tl cs])
    show "re_split U heading (re_sub U ws (str '' '') T) = Some pre # tl"
      using sp by (simp add: tx_def)
    show "clause_loop U tl = Inr cs" by (rule a(2))
    show "extract_clauses U T
       = Inr (if cs = []
              then [\<lparr>title = str ''General Clause'', text' = re_sub U ws (str '' '') T\<rparr>]
              else cs)"
      using ex by (simp add: tx_def)
    show "map text' cs = map (strip U) (bodies tl)" by (rule a(3))
    show "cs = [] \<longleftrightarrow> re_search U heading None (re_sub U ws (str '' '') T) = None"
      using a(4) by (simp add: re_search_plain_iff tx_def)
    show "re_search U heading None (re_sub U ws (str '' '') T) = None \<longrightarrow>
       pre = re_sub U ws (str '' '') T \<and> tl = []"
      using a(5) cc by (simp add: re_search_plain_iff tx_def)
    show "isspace U 32 \<and> \<not> isdecimal U 32 \<and> \<not> isdecimal U 58 \<longrightarrow>
        squeeze U (pre @ concat (map (\<lambda>c. title c @ [58] @ text' c) cs)) = squeeze U T"
      using a(6) cc sq by simp
  qed
qed

lemma preamble_eq: "re_split U heading (re_sub U ws (str '' '') T) = Some pre # ps \<Longrightarrow> preamble U T = pre"
  by (simp add: preamble_def)

lemma match_at_heading_nonempty:
  assumes "match_at U heading p s = Some (mt, g)"
  shows "mt \<noteq> []"
proof -
  from match_at_heading [OF assms] obtain w x where "mt = w @ x" "is_heading U x" by blast
  then show ?thesis by (auto simp: is_heading_def)
qed

lemma re_sub_Nil: "re_sub U ws repl [] = []"
proof (cases "match_at U ws None []")
  case None
  then show ?thesis by (simp add: re_sub_def)
next
  case (Some x)
  obtain mt g where "x = (mt, g)" by (cases x)
  with Some match_at_ws [of U None "[]" mt g] match_at_prefix [of U ws None "[]" mt g]
  show ?thesis by simp
qed

lemma re_search_heading_Nil: "re_search U heading None [] = None"
proof (cases "match_at U heading None []")
  case None
  then show ?thesis by simp
next
  case (Some x)
  obtain mt g where "x = (mt, g)" by (cases x)
  with Some match_at_heading_nonempty [of U None "[]" mt g] match_at_prefix [of U heading None "[]" mt g]
  show ?thesis by simp
qed

subsection \<open>What the clauses keep of the text\<close>

text \<open>
  C4, as amended. The claim that the concatenated clause bodies reconstruct the text up to
  white space holds when no heading matches: the single body is the whitespace-collapsed
  text. When a heading matches, the bodies alone do not reconstruct the text, since the
  headings go to the titles and the text before the first heading goes to no clause; the
  text is then reconstructed, up to white space, by the text before the first heading
  followed by title, colon and body of each clause in order. The tables are assumed to
  class the blank as white space and neither the blank nor the colon as a digit.
\<close>

theorem clauses_reconstruct_text:
  assumes "isspace U 32" and "\<not> isdecimal U 32" and "\<not> isdecimal U 58"
  shows "\<exists>cs. extract_clauses U T = Inr cs \<and>
     (if re_search U heading None (re_sub U ws (str '' '') T) = None
      then concat (map text' cs) = re_sub U ws (str '' '') T \<and>
           squeeze U (concat (map text' cs)) = squeeze U T
      else squeeze U (preamble U T @ concat (map (\<lambda>c. title c @ str '':'' @ text' c) cs))
             = squeeze U T)"
proof -
  obtain pre tl cs0 where
    a: "re_split U heading (re_sub U ws (str '' '') T) = Some pre # tl"
       "clause_loop U tl = Inr cs0"
       "extract_clauses U T
         = Inr (if cs0 = []
                then [\<lparr>title = str ''General Clause'', text' = re_sub U ws (str '' '') T\<rparr>]
                else cs0)"
       "map text' cs0 = map (strip U) (bodies tl)"
       "cs0 = [] \<longleftrightarrow> re_search U heading None (re_sub U ws (str '' '') T) = None"
       "re_search U heading None (re_sub U ws (str '' '') T) = None \<longrightarrow>
          pre = re_sub U ws (str '' '') T \<and> tl = []"
       "isspace U 32 \<and> \<not> isdecimal U 32 \<and> \<not> isdecimal U 58 \<longrightarrow>
        squeeze U (pre @ concat (map (\<lambda>c. title c @ [58] @ text' c) cs0)) = squeeze U T"
    by (rule extract_clauses_shape [of U T])
  have c: "str '':'' = [58]" by (simp add: str_def)
  show ?thesis
  proof (cases "cs0 = []")
    case True
    with a(5) have rs: "re_search U heading None (re_sub U ws (str '' '') T) = None" by simp
    from True a(3) have ex: "extract_clauses U T
        = Inr [\<lparr>title = str ''General Clause'', text' = re_sub U ws (str '' '') T\<rparr>]"
      by simp
    show ?thesis using rs ex squeeze_re_sub_ws [OF assms(1), of T] by simp
  next
    case False
    with a(5) have rs: "re_search U heading None (re_sub U ws (str '' '') T) \<noteq> None" by simp
    from False a(3) have ex: "extract_clauses U T = Inr cs0" by simp
    from a(7) assms have "squeeze U (pre @ concat (map (\<lambda>c. title c @ [58] @ text' c) cs0))
        = squeeze U T" by simp
    then show ?thesis using rs ex preamble_eq [OF a(1)] by (auto simp: c)
  qed
qed

lemma lease_clauses:
  "extract_clauses ascii (str ''Lease 1. Term: one year 2) Rent Due: monthly'') =
     Inr [\<lparr>title = str ''1. Term'', text' = str ''one year''\<rparr>,
          \<lparr>title = str ''2) Rent Due'', text' = str ''monthly''\<rparr>]"
  by code_simp

lemma lease_search:
  "re_search ascii heading None
     (re_sub ascii ws (str '' '') (str ''Lease 1. Term: one year 2) Rent Due: monthly'')) \<noteq> None"
  by code_simp

lemma ascii_sane: "isspace ascii 32 \<and> \<not> isdecimal ascii 32 \<and> \<not> isdecimal ascii 58"
  by (simp add: ascii_def)

theorem clauses_reconstruct_text_witness:
  "isspace ascii 32 \<and> \<not> isdecimal ascii 32 \<and> \<not> isdecimal ascii 58 \<and>
   squeeze ascii (preamble ascii (str ''Lease 1. Term: one year 2) Rent Due: monthly'') @
      concat (map (\<lambda>c. title c @ str '':'' @ text' c)
        [\<lparr>title = str ''1. Term'', text' = str ''one year''\<rparr>,
         \<lparr>title = str ''2) Rent Due'', text' = str ''monthly''\<rparr>]))
     = squeeze ascii (str ''Lease 1. Term: one year 2) Rent Due: monthly'')"
  using clauses_reconstruct_text [of ascii "str ''Lease 1. Term: one year 2) Rent Due: monthly''"]
    ascii_sane lease_search
  by (simp add: lease_clauses)

text \<open>
  With the bodies alone the reconstruction fails on a text with a heading: the only body
  of \<^verbatim>\<open>"1. Term: one year"\<close> is \<^verbatim>\<open>"one year"\<close>.
\<close>

theorem bodies_reconstruct_counterexample:
  "extract_clauses ascii (str ''1. Term: one year'') =
     Inr [\<lparr>title = str ''1. Term'', text' = str ''one year''\<rparr>] \<and>
   squeeze ascii (concat (map text' [\<lparr>title = str ''1. Term'', text' = str ''one year''\<rparr>]))
     \<noteq> squeeze ascii (str ''1. Term: one year'')"
  by code_simp

text \<open>
  C5, as amended. The clause texts are not always non-empty. All clauses returned for a
  text have a non-empty text field exactly when the text is non-empty and every body
  segment, between a heading and the next heading or the end, has a character that is not
  white space.
\<close>

theorem clause_texts_nonempty_iff:
  "\<exists>cs. extract_clauses U T = Inr cs \<and>
     ((\<forall>c\<in>set cs. text' c \<noteq> []) \<longleftrightarrow>
      T \<noteq> [] \<and> (\<forall>b\<in>set (bodies (drop 1 (re_split U heading (re_sub U ws (str '' '') T)))).
                    \<exists>x\<in>set b. \<not> isspace U x))"
proof -
  let ?txt = "re_sub U ws (str '' '') T"
  obtain pre tl cs0 where
    a: "re_split U heading (re_sub U ws (str '' '') T) = Some pre # tl"
       "clause_loop U tl = Inr cs0"
       "extract_clauses U T
         = Inr (if cs0 = []
                then [\<lparr>title = str ''General Clause'', text' = re_sub U ws (str '' '') T\<rparr>]
                else cs0)"
       "map text' cs0 = map (strip U) (bodies tl)"
       "cs0 = [] \<longleftrightarrow> re_search U heading None (re_sub U ws (str '' '') T) = None"
       "re_search U heading None (re_sub U ws (str '' '') T) = None \<longrightarrow>
          pre = re_sub U ws (str '' '') T \<and> tl = []"
       "isspace U 32 \<and> \<not> isdecimal U 32 \<and> \<not> isdecimal U 58 \<longrightarrow>
        squeeze U (pre @ concat (map (\<lambda>c. title c @ [58] @ text' c) cs0)) = squeeze U T"
    by (rule extract_clauses_shape [of U T])
  have ne: "?txt \<noteq> [] \<longleftrightarrow> T \<noteq> []"
    using re_sub_nonempty [of T "str '' ''" U ws] re_sub_Nil [of U "str '' ''"]
    by (auto simp: str_def)
  show ?thesis
  proof (cases "cs0 = []")
    case True
    with a(5,6) have tl: "tl = []" by simp
    from True a(3) have ex: "extract_clauses U T
        = Inr [\<lparr>title = str ''General Clause'', text' = re_sub U ws (str '' '') T\<rparr>]"
      by simp
    show ?thesis using ex tl a(1) ne by simp
  next
    case False
    with a(5) have "re_search U heading None ?txt \<noteq> None" by simp
    then have "?txt \<noteq> []" using re_search_heading_Nil [of U] by auto
    with ne have T: "T \<noteq> []" by simp
    from False a(3) have ex: "extract_clauses U T = Inr cs0" by simp
    have "(\<forall>c\<in>set cs0. text' c \<noteq> []) \<longleftrightarrow> (\<forall>t\<in>set (map text' cs0). t \<noteq> [])" by simp
    also have "\<dots> \<longleftrightarrow> (\<forall>b\<in>set (bodies tl). strip U b \<noteq> [])" unfolding a(4) by simp
    also have "\<dots> \<longleftrightarrow> (\<forall>b\<in>set (bodies tl). \<exists>x\<in>set b. \<not> isspace U x)"
      by (simp add: strip_empty_iff)
    finally show ?thesis using ex a(1) T by simp
  qed
qed

lemma lease_bodies:
  "bodies (drop 1 (re_split ascii heading (re_sub ascii ws (str '' '')
      (str ''Lease 1. Term: one year 2) Rent Due: monthly'')))) =
     [str '' one year'', str '' monthly'']"
  by code_simp

theorem clause_texts_nonempty_iff_witness:
  "str ''Lease 1. Term: one year 2) Rent Due: monthly'' \<noteq> [] \<and>
   bodies (drop 1 (re_split ascii heading (re_sub ascii ws (str '' '')
      (str ''Lease 1. Term: one year 2) Rent Due: monthly'')))) =
     [str '' one year'', str '' monthly''] \<and>
   \<not> isspace ascii (of_char CHR ''o'') \<and> \<not> isspace ascii (of_char CHR ''m'') \<and>
   extract_clauses ascii (str ''Lease 1. Term: one year 2) Rent Due: monthly'') =
     Inr [\<lparr>title = str ''1. Term'', text' = str ''one year''\<rparr>,
          \<lparr>title = str ''2) Rent Due'', text' = str ''monthly''\<rparr>] \<and>
   str ''one year'' \<noteq> [] \<and> str ''monthly'' \<noteq> []"
proof -
  let ?T = "str ''Lease 1. Term: one year 2) Rent Due: monthly''"
  from clause_texts_nonempty_iff [of ascii ?T] obtain cs where
    cs: "extract_clauses ascii ?T = Inr cs" and
    iff: "(\<forall>c\<in>set cs. text' c \<noteq> []) \<longleftrightarrow>
      ?T \<noteq> [] \<and> (\<forall>b\<in>set (bodies (drop 1 (re_split ascii heading (re_sub ascii ws (str '' '') ?T)))).
                    \<exists>x\<in>set b. \<not> isspace ascii x)"
    by blast
  have ne: "?T \<noteq> []" by (simp add: str_def)
  have sp: "\<not> isspace ascii (of_char CHR ''o'') \<and> \<not> isspace ascii (of_char CHR ''m'')"
    by (simp add: ascii_def)
  then have "\<forall>b\<in>set [str '' one year'', str '' monthly'']. \<exists>x\<in>set b. \<not> isspace ascii x"
    by (simp add: str_def)
  with iff ne have all: "\<forall>c\<in>set cs. text' c \<noteq> []" by (simp only: lease_bodies simp_thms)
  from cs have eq: "cs = [\<lparr>title = str ''1. Term'', text' = str ''one year''\<rparr>,
          \<lparr>title = str ''2) Rent Due'', text' = str ''monthly''\<rparr>]"
    by (simp add: lease_clauses)
  from all have "str ''one year'' \<noteq> [] \<and> str ''monthly'' \<noteq> []" unfolding eq by simp
  with ne sp show ?thesis by (simp only: lease_bodies lease_clauses simp_thms)
qed

text \<open>
  A clause with an empty text: after a heading without a body, and for the empty text.
\<close>

theorem clause_text_nonempty_counterexample:
  "extract_clauses ascii (str ''1. Term:'') = Inr [\<lparr>title = str ''1. Term'', text' = []\<rparr>] \<and>
   extract_clauses ascii [] = Inr [\<lparr>title = str ''General Clause'', text' = []\<rparr>]"
  by code_simp

subsection \<open>Language normalisation\<close>

text \<open>
  C3, as amended. For every text and every outcome of the detection,
  \<^verbatim>\<open>normalize_language\<close> raises nothing and returns the text unchanged; the language tag
  is "Hindi" when the detected code is \<^verbatim>\<open>hi\<close> and "English" for every other code and
  also when the detection fails. The tag "unknown" is never returned.
\<close>

theorem normalize_language_tag:
  "normalize_language detected t =
     Inr \<lparr>language = (case detected of
                         Inl e \<Rightarrow> str ''English''
                       | Inr code \<Rightarrow> if code = str ''hi'' then str ''Hindi'' else str ''English''),
          normalized = t\<rparr>"
  by (cases detected) (simp_all add: normalize_language_def Let_def str_def)

theorem normalize_language_tag_witness:
  "normalize_language (Inr (str ''hi'')) (str ''namaste'') =
     Inr \<lparr>language = str ''Hindi'', normalized = str ''namaste''\<rparr> \<and>
   normalize_language (Inr (str ''en'')) (str ''hello'') =
     Inr \<lparr>language = str ''English'', normalized = str ''hello''\<rparr> \<and>
   normalize_language (Inl LangDetectException) (str '''') =
     Inr \<lparr>language = str ''English'', normalized = str ''''\<rparr>"
  using normalize_language_tag [of "Inr (str ''hi'')" "str ''namaste''"]
    normalize_language_tag [of "Inr (str ''en'')" "str ''hello''"]
    normalize_language_tag [of "Inl LangDetectException" "str ''''"]
  by (simp add: str_def)

text \<open>
  When the detection raises, the tag is "English" and not "unknown".
\<close>

theorem normalize_language_unknown_counterexample:
  "normalize_language (Inl LangDetectException) (str '''') =
     Inr \<lparr>language = str ''English'', normalized = str ''''\<rparr> \<and>
   str ''English'' \<noteq> str ''unknown''"
  by (simp add: normalize_language_def Let_def str_def)

subsection \<open>Risk score and tier\<close>

lemma starts_with_prefix: "starts_with k s \<longleftrightarrow> prefix k s"
  by (induction k s rule: starts_with.induct) simp_all

lemma isin_sublist: "isin k s \<longleftrightarrow> sublist k s"
proof (induction s)
  case Nil
  then show ?case by simp
next
  case (Cons c s)
  show ?case
  proof (cases k)
    case Nil
    then show ?thesis by simp
  next
    case (Cons a k')
    with Cons.IH show ?thesis by (simp add: starts_with_prefix sublist_Cons_right)
  qed
qed

text \<open>
  C6. The risk score of a text is the sum of the weights of the keywords of the lexicon
  that occur in the lower-cased text, each weight once; the tier is High exactly when the
  score is at least 7, Medium exactly when it is at least 4 and below 7, Low exactly when
  it is below 4. A text in which "indemnify" and "arbitration" occur and no other keyword
  has score 6 and tier Medium.
\<close>

theorem risk_score_and_tier:
  "risk_score U t =
     (if has U t ''penalty'' then 3 else 0) + (if has U t ''indemnify'' then 4 else 0) +
     (if has U t ''terminate at any time'' then 4 else 0) +
     (if has U t ''without notice'' then 3 else 0) + (if has U t ''non compete'' then 4 else 0) +
     (if has U t ''auto renew'' then 3 else 0) + (if has U t ''arbitration'' then 2 else 0) +
     (if has U t ''jurisdiction'' then 2 else 0) \<and>
   (risk_analysis U t = High \<longleftrightarrow> 7 \<le> risk_score U t) \<and>
   (risk_analysis U t = Medium \<longleftrightarrow> 4 \<le> risk_score U t \<and> risk_score U t < 7) \<and>
   (risk_analysis U t = Low \<longleftrightarrow> risk_score U t < 4) \<and>
   (has U t ''indemnify'' \<and> has U t ''arbitration'' \<and> \<not> has U t ''penalty'' \<and>
    \<not> has U t ''terminate at any time'' \<and> \<not> has U t ''without notice'' \<and>
    \<not> has U t ''non compete'' \<and> \<not> has U t ''auto renew'' \<and> \<not> has U t ''jurisdiction''
    \<longrightarrow> risk_score U t = 6 \<and> risk_analysis U t = Medium)"
proof -
  have sc: "risk_score U t =
     (if has U t ''penalty'' then 3 else 0) + (if has U t ''indemnify'' then 4 else 0) +
     (if has U t ''terminate at any time'' then 4 else 0) +
     (if has U t ''without notice'' then 3 else 0) + (if has U t ''non compete'' then 4 else 0) +
     (if has U t ''auto renew'' then 3 else 0) + (if has U t ''arbitration'' then 2 else 0) +
     (if has U t ''jurisdiction'' then 2 else 0)"
    unfolding risk_score_def RISK_RULES_def has_def by simp
  have ti: "(risk_analysis U t = High \<longleftrightarrow> 7 \<le> risk_score U t) \<and>
   (risk_analysis U t = Medium \<longleftrightarrow> 4 \<le> risk_score U t \<and> risk_score U t < 7) \<and>
   (risk_analysis U t = Low \<longleftrightarrow> risk_score U t < 4)"
    by (simp add: risk_analysis_def Let_def)
  have ex: "risk_score U t = 6 \<and> risk_analysis U t = Medium"
    if "has U t ''indemnify'' \<and> has U t ''arbitration'' \<and> \<not> has U t ''penalty'' \<and>
    \<not> has U t ''terminate at any time'' \<and> \<not> has U t ''without notice'' \<and>
    \<not> has U t ''non compete'' \<and> \<not> has U t ''auto renew'' \<and> \<not> has U t ''jurisdiction''"
  proof -
    from that sc have "risk_score U t = 6" by simp
    then show ?thesis by (simp add: risk_analysis_def Let_def)
  qed
  from sc ti ex show ?thesis by blast
qed

theorem risk_score_and_tier_witness:
  "has ascii (str ''Vendor shall INDEMNIFY the client. Arbitration applies.'') ''indemnify'' \<and>
   has ascii (str ''Vendor shall INDEMNIFY the client. Arbitration applies.'') ''arbitration'' \<and>
   \<not> has ascii (str ''Vendor shall INDEMNIFY the client. Arbitration applies.'') ''penalty'' \<and>
   risk_score ascii (str ''Vendor shall INDEMNIFY the client. Arbitration applies.'') = 6 \<and>
   risk_analysis ascii (str ''Vendor shall INDEMNIFY the client. Arbitration applies.'') = Medium"
proof -
  let ?T = "str ''Vendor shall INDEMNIFY the client. Arbitration applies.''"
  have h: "has ascii ?T ''indemnify'' \<and> has ascii ?T ''arbitration'' \<and> \<not> has ascii ?T ''penalty'' \<and>
    \<not> has ascii ?T ''terminate at any time'' \<and> \<not> has ascii ?T ''without notice'' \<and>
    \<not> has ascii ?T ''non compete'' \<and> \<not> has ascii ?T ''auto renew'' \<and> \<not> has ascii ?T ''jurisdiction''"
    by code_simp
  with risk_score_and_tier [of ascii ?T] show ?thesis by blast
qed

subsection \<open>The first maximum\<close>

lemma hd_filter_Max:
  assumes "L \<noteq> []"
  shows "f (hd (filter (\<lambda>y. f y = Max (f ` set L)) L)) = Max (f ` set L)"
    and "filter (\<lambda>y. f y = Max (f ` set L)) L \<noteq> []"
proof -
  have fin: "finite (f ` set L)" and ne: "f ` set L \<noteq> {}" using assms by simp_all
  from Max_in [OF fin ne] have "Max (f ` set L) \<in> f ` set L" .
  then obtain z where z: "z \<in> set L" "f z = Max (f ` set L)" by (elim imageE) simp
  then show fne: "filter (\<lambda>y. f y = Max (f ` set L)) L \<noteq> []"
    by (auto simp: filter_empty_conv)
  then have "hd (filter (\<lambda>y. f y = Max (f ` set L)) L) \<in> set (filter (\<lambda>y. f y = Max (f ` set L)) L)"
    by (rule hd_in_set)
  then show "f (hd (filter (\<lambda>y. f y = Max (f ` set L)) L)) = Max (f ` set L)" by simp
qed

lemma first_max_snoc:
  fixes f :: "'a \<Rightarrow> int"
  assumes "L \<noteq> []"
  shows "hd (filter (\<lambda>z. f z = Max (f ` set (L @ [y]))) (L @ [y]))
     = (if Max (f ` set L) < f y then y else hd (filter (\<lambda>z. f z = Max (f ` set L)) L))"
proof -
  let ?M = "Max (f ` set L)"
  have fin: "finite (f ` set L)" and ne: "f ` set L \<noteq> {}" using assms by simp_all
  have M': "Max (f ` set (L @ [y])) = max (f y) ?M"
  proof -
    have "f ` set (L @ [y]) = insert (f y) (f ` set L)" by auto
    then show ?thesis using Max_insert [OF fin ne, of "f y"] by simp
  qed
  show ?thesis
  proof (cases "?M < f y")
    case True
    have "f z \<noteq> f y" if "z \<in> set L" for z
    proof -
      from that have "f z \<le> ?M" using Max_ge [OF fin] by blast
      with True show ?thesis by simp
    qed
    then have "filter (\<lambda>z. f z = f y) L = []" by (simp add: filter_empty_conv)
    moreover have "Max (f ` set (L @ [y])) = f y" using M' True by simp
    ultimately show ?thesis using True by simp
  next
    case False
    then have eq: "Max (f ` set (L @ [y])) = ?M" using M' by simp
    have "filter (\<lambda>z. f z = ?M) (L @ [y]) = filter (\<lambda>z. f z = ?M) L @ filter (\<lambda>z. f z = ?M) [y]"
      by simp
    moreover have "hd (filter (\<lambda>z. f z = ?M) L @ filter (\<lambda>z. f z = ?M) [y])
        = hd (filter (\<lambda>z. f z = ?M) L)"
      using hd_filter_Max(2) [OF assms, of f] by (rule hd_append2)
    ultimately have "hd (filter (\<lambda>z. f z = ?M) (L @ [y])) = hd (filter (\<lambda>z. f z = ?M) L)"
      by (simp only:)
    then show ?thesis using False eq by simp
  qed
qed

lemma foldl_first_max:
  fixes f :: "'a \<Rightarrow> int"
  shows "foldl (\<lambda>b y. if f b < f y then y else b) x ys
     = hd (filter (\<lambda>y. f y = Max (f ` set (x # ys))) (x # ys))"
proof (induction ys rule: rev_induct)
  case Nil
  then show ?case by simp
next
  case (snoc y ys)
  define L where "L = x # ys"
  have L: "L \<noteq> []" by (simp add: L_def)
  let ?r = "foldl (\<lambda>b y. if f b < f y then y else b) x ys"
  from snoc.IH have r: "?r = hd (filter (\<lambda>y. f y = Max (f ` set L)) L)" by (simp only: L_def)
  then have fr: "f ?r = Max (f ` set L)" using hd_filter_Max(1) [OF L, of f] by simp
  have "foldl (\<lambda>b y. if f b < f y then y else b) x (ys @ [y]) = (if f ?r < f y then y else ?r)"
    by simp
  also have "\<dots> = (if Max (f ` set L) < f y then y else hd (filter (\<lambda>z. f z = Max (f ` set L)) L))"
    using r fr by simp
  also have "\<dots> = hd (filter (\<lambda>z. f z = Max (f ` set (L @ [y]))) (L @ [y]))"
    by (rule first_max_snoc [OF L, symmetric])
  finally show ?case by (simp only: L_def append_Cons)
qed

lemma py_max_first_max:
  "xs \<noteq> [] \<Longrightarrow> py_max f xs = Inr (hd (filter (\<lambda>y. f y = Max (f ` set xs)) xs))"
  by (cases xs) (simp_all add: py_max_def foldl_first_max del: foldl_Cons)

subsection \<open>Rounding\<close>

lemma round_half_even_bounds:
  "x - 1 / 2 \<le> of_int (round_half_even x) \<and> of_int (round_half_even x) \<le> x + 1 / 2"
proof -
  define f where "f = \<lfloor>x\<rfloor>"
  have 1: "of_int f \<le> x" "x < of_int f + 1" unfolding f_def by linarith+
  have "round_half_even x = f \<and> x - of_int f \<le> 1 / 2
      \<or> round_half_even x = f + 1 \<and> 1 / 2 \<le> x - of_int f"
    unfolding round_half_even_def Let_def f_def [symmetric]
    by (cases "x - of_int f < 1 / 2"; cases "1 / 2 < x - of_int f"; cases "even f") simp_all
  then show ?thesis
  proof
    assume "round_half_even x = f \<and> x - of_int f \<le> 1 / 2"
    with 1 show ?thesis by simp
  next
    assume "round_half_even x = f + 1 \<and> 1 / 2 \<le> x - of_int f"
    with 1 show ?thesis by simp
  qed
qed

lemma round_half_even_le:
  assumes "x \<le> of_int n"
  shows "round_half_even x \<le> n"
proof -
  from round_half_even_bounds [of x] assms
  have "(of_int (round_half_even x) :: rat) < of_int (n + 1)" by simp
  then have "round_half_even x < n + 1" by (simp only: of_int_less_iff)
  then show ?thesis by simp
qed

lemma round_half_even_ge:
  assumes "of_int n \<le> x"
  shows "n \<le> round_half_even x"
proof -
  from round_half_even_bounds [of x] assms
  have "(of_int (n - 1) :: rat) < of_int (round_half_even x)" by simp
  then have "n - 1 < round_half_even x" by (simp only: of_int_less_iff)
  then show ?thesis by simp
qed

lemma py_round2_le: "x \<le> of_int n / 100 \<Longrightarrow> py_round2 x \<le> of_int n / 100"
  using round_half_even_le [of "x * 100" n] by (simp add: py_round2_def divide_le_eq)

lemma py_round2_ge: "of_int n / 100 \<le> x \<Longrightarrow> of_int n / 100 \<le> py_round2 x"
  using round_half_even_ge [of n "x * 100"] by (simp add: py_round2_def le_divide_eq divide_le_eq)

lemma py_round2_0: "py_round2 0 = 0"
  by (simp add: py_round2_def round_half_even_def)



subsection \<open>Scores of the contract types\<close>

lemma type_scores_keys:
  "map fst (type_scores t) =
     [''Employment Agreement'', ''Lease Agreement'', ''Vendor / Service Agreement'',
      ''Partnership Deed'']"
  by (simp add: type_scores_def rules_def)

lemma type_scores_range:
  assumes "n \<in> snd ` set (type_scores t)"
  shows "0 \<le> n \<and> n \<le> 4"
proof -
  from assms obtain k v where kv: "(k, v) \<in> set rules" and n: "n = int (length (filter (\<lambda>w. isin (str w) t) v))"
    by (auto simp: type_scores_def)
  from kv have "length v \<le> 4" by (auto simp: rules_def)
  moreover have "length (filter (\<lambda>w. isin (str w) t) v) \<le> length v" by (rule length_filter_le)
  ultimately have "length (filter (\<lambda>w. isin (str w) t) v) \<le> 4" by (rule le_trans [rotated])
  then show ?thesis using n by simp
qed

lemma type_scores_zero_iff:
  "(\<forall>n\<in>snd ` set (type_scores t). n = 0)
     \<longleftrightarrow> (\<forall>(k, v)\<in>set rules. \<forall>w\<in>set v. \<not> isin (str w) t)"
  by (auto simp: type_scores_def filter_empty_conv)

lemma type_scores_sum_le: "sum_list (map snd (type_scores t)) \<le> 12"
proof -
  have "sum_list (map snd (type_scores t))
      = sum_list (map (\<lambda>(k, v). int (length (filter (\<lambda>w. isin (str w) t) v))) rules)"
    by (simp add: type_scores_def comp_def case_prod_unfold)
  also have "\<dots> \<le> sum_list (map (\<lambda>(k, v). int (length v)) rules)"
    by (rule sum_list_mono) auto
  also have "\<dots> = 12" by (simp add: rules_def)
  finally show ?thesis .
qed

lemma member_le_sum_list_int:
  fixes xs :: "int list"
  assumes "\<forall>x\<in>set xs. 0 \<le> x" and "y \<in> set xs"
  shows "y \<le> sum_list xs"
  using assms
proof (induction xs)
  case Nil
  then show ?case by simp
next
  case (Cons a xs)
  have "0 \<le> sum_list xs" using Cons.prems(1) by (simp add: sum_list_nonneg)
  with Cons show ?case by auto
qed

lemma type_scores_facts:
  fixes t
  defines "b \<equiv> Max (snd ` set (type_scores t))"
  defines "s \<equiv> sum_list (map snd (type_scores t))"
  shows "0 \<le> b" "b \<le> 4" "b \<le> s" "s \<le> 12"
    "b = 0 \<longleftrightarrow> (\<forall>(k, v)\<in>set rules. \<forall>w\<in>set v. \<not> isin (str w) t)"
proof -
  have ne: "type_scores t \<noteq> []" by (simp add: type_scores_def rules_def)
  then have fin: "finite (snd ` set (type_scores t))" and ne': "snd ` set (type_scores t) \<noteq> {}"
    by simp_all
  from Max_in [OF fin ne'] have bin: "b \<in> snd ` set (type_scores t)" by (simp add: b_def)
  from type_scores_range [OF bin] show "0 \<le> b" "b \<le> 4" by simp_all
  have nn: "\<forall>x\<in>set (map snd (type_scores t)). 0 \<le> x"
    using type_scores_range [of _ t] by auto
  from bin have "b \<in> set (map snd (type_scores t))" by simp
  from member_le_sum_list_int [OF nn this] show "b \<le> s" by (simp add: s_def)
  show "s \<le> 12" unfolding s_def by (rule type_scores_sum_le)
  have "b = 0 \<longleftrightarrow> (\<forall>n\<in>snd ` set (type_scores t). n = 0)"
  proof
    assume "b = 0"
    show "\<forall>n\<in>snd ` set (type_scores t). n = 0"
    proof
      fix n assume n: "n \<in> snd ` set (type_scores t)"
      then have "n \<le> b" unfolding b_def using fin by (rule_tac Max_ge)
      with \<open>b = 0\<close> type_scores_range [OF n] show "n = 0" by simp
    qed
  next
    assume "\<forall>n\<in>snd ` set (type_scores t). n = 0"
    with bin show "b = 0" by blast
  qed
  then show "b = 0 \<longleftrightarrow> (\<forall>(k, v)\<in>set rules. \<forall>w\<in>set v. \<not> isin (str w) t)"
    by (simp only: type_scores_zero_iff)
qed

lemma classify_contract_eq:
  "classify_contract U t =
     Inr (str (hd (maximal_types (type_scores (lower U t)))),
          py_round2 (of_int (Max (snd ` set (type_scores (lower U t))))
                     / of_int (sum_list (map snd (type_scores (lower U t))) + 1)))"
proof -
  let ?sc = "type_scores (lower U t)"
  have ne: "?sc \<noteq> []" by (simp add: type_scores_def rules_def)
  let ?best = "hd (filter (\<lambda>y. snd y = Max (snd ` set ?sc)) ?sc)"
  have pm: "py_max snd ?sc = Inr ?best" by (rule py_max_first_max [OF ne])
  have sb: "snd ?best = Max (snd ` set ?sc)" by (rule hd_filter_Max(1) [OF ne])
  have fb: "fst ?best = hd (maximal_types ?sc)"
    unfolding maximal_types_def using hd_filter_Max(2) [OF ne, of snd] by (simp add: hd_map)
  show ?thesis
    unfolding classify_contract_def Let_def pm using sb fb by simp
qed

lemma confidence_bounds:
  fixes t
  defines "b \<equiv> Max (snd ` set (type_scores t))"
  defines "s \<equiv> sum_list (map snd (type_scores t))"
  defines "c \<equiv> py_round2 (of_int b / of_int (s + 1))"
  shows "0 \<le> c" "c \<le> 4 / 5"
    "c = 0 \<longleftrightarrow> (\<forall>(k, v)\<in>set rules. \<forall>w\<in>set v. \<not> isin (str w) t)"
proof -
  have f: "0 \<le> b" "b \<le> 4" "b \<le> s" "s \<le> 12"
    and z: "b = 0 \<longleftrightarrow> (\<forall>(k, v)\<in>set rules. \<forall>w\<in>set v. \<not> isin (str w) t)"
    unfolding b_def s_def by (rule type_scores_facts)+
  have pos: "(0::rat) < of_int (s + 1)" using f by simp
  have r0: "(of_int 0 :: rat) / 100 \<le> of_int b / of_int (s + 1)" using f pos by simp
  from py_round2_ge [OF r0] show c0: "0 \<le> c" by (simp add: c_def)
  have "b * 100 \<le> 80 * (s + 1)" using f by simp
  then have "(of_int (b * 100) :: rat) \<le> of_int (80 * (s + 1))" by (simp only: of_int_le_iff)
  then have r1: "(of_int b :: rat) / of_int (s + 1) \<le> of_int 80 / 100"
    using pos by (simp add: divide_le_eq)
  from py_round2_le [OF r1] show "c \<le> 4 / 5" by (simp add: c_def)
  have "c = 0 \<longleftrightarrow> b = 0"
  proof
    assume "b = 0"
    then show "c = 0" by (simp add: c_def py_round2_0)
  next
    assume c: "c = 0"
    show "b = 0"
    proof (rule ccontr)
      assume "b \<noteq> 0"
      with f have "1 \<le> b" by simp
      with f have "s + 1 \<le> 100 * b" by simp
      then have "(of_int (s + 1) :: rat) \<le> of_int (100 * b)" by (simp only: of_int_le_iff)
      then have "(of_int 1 :: rat) / 100 \<le> of_int b / of_int (s + 1)"
        using pos by (simp add: le_divide_eq)
      from py_round2_ge [OF this] have "1 / 100 \<le> c" by (simp add: c_def)
      with c show False by simp
    qed
  qed
  with z show "c = 0 \<longleftrightarrow> (\<forall>(k, v)\<in>set rules. \<forall>w\<in>set v. \<not> isin (str w) t)" by simp
qed







text \<open>
  C9. For every text the classifier returns the first type, in the order Employment
  Agreement, Lease Agreement, Vendor / Service Agreement, Partnership Deed, among the
  types with the greatest score; so when two or more types attain the greatest score the
  first of them in that order is returned.
\<close>

theorem classify_tie_first:
  "\<exists>conf. classify_contract U t
       = Inr (str (hd (maximal_types (type_scores (lower U t)))), conf) \<and>
     map fst (type_scores (lower U t)) =
       [''Employment Agreement'', ''Lease Agreement'', ''Vendor / Service Agreement'',
        ''Partnership Deed'']"
  using classify_contract_eq [of U t] type_scores_keys by simp

lemma classify_rent_vendor:
  "classify_contract ascii (str ''Rent due to the Vendor'') = Inr (str ''Lease Agreement'', 33 / 100)"
  by code_simp

lemma rent_vendor_maximal:
  "maximal_types (type_scores (lower ascii (str ''Rent due to the Vendor'')))
     = [''Lease Agreement'', ''Vendor / Service Agreement'']"
  by code_simp

theorem classify_tie_first_witness:
  "maximal_types (type_scores (lower ascii (str ''Rent due to the Vendor'')))
     = [''Lease Agreement'', ''Vendor / Service Agreement''] \<and>
   classify_contract ascii (str ''Rent due to the Vendor'') = Inr (str ''Lease Agreement'', 33 / 100)"
  using classify_tie_first [of ascii "str ''Rent due to the Vendor''"]
  by (simp add: rent_vendor_maximal classify_rent_vendor)

text \<open>
  C10. For every text the confidence of the classifier is at most 0.8: the greatest score
  is at most 4, the size of the longest keyword list, and it is at most the sum of the
  scores, so the quotient is at most 4/5, and rounding keeps the bound.
\<close>

theorem classify_confidence_le:
  "\<exists>best conf. classify_contract U t = Inr (best, conf) \<and> conf \<le> 4 / 5 \<and>
     Max (snd ` set (type_scores (lower U t))) \<le> 4 \<and>
     Max (snd ` set (type_scores (lower U t))) \<le> sum_list (map snd (type_scores (lower U t)))"
  using classify_contract_eq [of U t] confidence_bounds(2) [of "lower U t"]
    type_scores_facts(2,3) [of "lower U t"] by simp

lemma classify_employment:
  "classify_contract ascii (str ''Employer pays the employee a salary until termination'')
     = Inr (str ''Employment Agreement'', 4 / 5)"
  by code_simp

theorem classify_confidence_le_witness:
  "classify_contract ascii (str ''Employer pays the employee a salary until termination'')
     = Inr (str ''Employment Agreement'', 4 / 5) \<and> (4 / 5 :: rat) \<le> 4 / 5"
  using classify_confidence_le [of ascii "str ''Employer pays the employee a salary until termination''"]
  by (simp add: classify_employment)

subsection \<open>Entity extraction\<close>

text \<open>
  C2 at the input of the specification. \<^verbatim>\<open>re.findall\<close> returns the capture of a pattern
  that has a group, so the amounts hold the currency marker "Rs." and not the matched
  text "Rs. 5,000"; the date pattern has no group and the jurisdiction pattern is one
  group, so these two hold the matched texts.
\<close>

theorem extract_entities_amounts:
  "extract_entities ascii (str ''Paid Rs. 5,000 on 12/04/2023 in Mumbai'') =
     \<lparr>Parties = {}, Dates = {str ''12/04/2023''}, Amounts = {str ''Rs.''},
      Jurisdiction = {str ''Mumbai''}\<rparr> \<and>
   {str ''Rs.''} \<noteq> {str ''Rs. 5,000''}"
  by code_simp

end
